theory Spec2Isabelle
  imports Complex_Main "HOL-Library.Word" "HOL-Library.Log_Nat"
begin

unbundle bit_operations_syntax

section \<open>Binary floating point, as far as the generator needs it\<close>

text \<open>
  The library computes in IEEE 754 single precision (\<open>float\<close>) and, in two places, in
  double precision. A finite floating-point value is modelled by the real number it
  denotes, and every arithmetic operation of the source is the exact operation on reals
  followed by rounding to the nearest representable value, ties to the even significand.
  \<open>rnd p emin\<close> is that rounding for a format with \<open>p\<close> significand bits and least
  normal exponent \<open>emin\<close>; below \<open>2 powi emin\<close> the spacing stays that of the subnormal
  numbers. Infinities and NaN are outside the model: where the source can produce one,
  the functions below say so.
\<close>

definition ilog2 :: "real \<Rightarrow> int" where
  "ilog2 x = (if 1 \<le> \<bar>x\<bar> then bitlen \<lfloor>\<bar>x\<bar>\<rfloor> - 1 else - bitlen (\<lceil>1 / \<bar>x\<bar>\<rceil> - 1))"

definition round_even :: "real \<Rightarrow> int" where
  "round_even q = (let f = \<lfloor>q\<rfloor>; d = q - of_int f in
     if d < 1 / 2 then f else if 1 / 2 < d then f + 1 else if even f then f else f + 1)"

definition ulp :: "nat \<Rightarrow> int \<Rightarrow> real \<Rightarrow> real" where
  "ulp p emin x = 2 powi (max (ilog2 x) emin - int p + 1)"

definition rnd :: "nat \<Rightarrow> int \<Rightarrow> real \<Rightarrow> real" where
  "rnd p emin x = (if x = 0 then 0 else of_int (round_even (x / ulp p emin x)) * ulp p emin x)"

definition f32 :: "real \<Rightarrow> real" where "f32 = rnd 24 (- 126)"
definition f64 :: "real \<Rightarrow> real" where "f64 = rnd 53 (- 1022)"

section \<open>The default pseudo-random generator\<close>

text \<open>
  \<open>float_of_bits\<close> reads a 32-bit pattern as a single-precision number (the source's
  pointer cast in \<open>randomFloat\<close>). Patterns with exponent field 255 encode infinities
  and NaN and have no real value; \<open>randomFloat\<close> only ever builds patterns with
  exponent field 128 (lemma \<open>a_exp\<close>).

  \<open>randomFloat\<close> and \<open>randomInt\<close> take the seed and return the result together with
  the updated seed. The product \<open>randomFloat() * maxInt\<close> converts \<open>maxInt\<close> to single
  precision first; the conversion back to \<open>uint32_t\<close> truncates towards zero.
\<close>

definition float_of_bits :: "32 word \<Rightarrow> real" where
  "float_of_bits w =
     (let E = unat (drop_bit 23 w AND 0xFF); M = unat (w AND 0x7FFFFF);
          v = (if E = 0 then real M * 2 powi (- 149) else real (2 ^ 23 + M) * 2 powi (int E - 150))
      in if bit w 31 then - v else v)"

definition float_to_int :: "real \<Rightarrow> int" where
  "float_to_int x = (if 0 \<le> x then \<lfloor>x\<rfloor> else \<lceil>x\<rceil>)"

definition randomFloat :: "32 word \<Rightarrow> real \<times> 32 word" where
  "randomFloat seed =
     (let seed' = seed * 521167;
          a = (seed' AND 0x007fffff) OR 0x40000000
      in (f32 (0.5 * f32 (float_of_bits a - 2)), seed'))"

definition randomInt :: "32 word \<Rightarrow> 32 word \<Rightarrow> 32 word \<times> 32 word" where
  "randomInt maxInt seed =
     (let (r, seed') = randomFloat seed
      in (word_of_int (float_to_int (f32 (r * f32 (real (unat maxInt))))), seed'))"

section \<open>Points, the acceleration grid and the samplers\<close>

text \<open>
  The header gives its types and functions non-ASCII names; the names below are those of
  the functions they implement, in the order of the header: the point type with its two
  region predicates and its \<open>+\<close> and \<open>-\<close> (lines 77 to 103), the distance and the cell of a
  point (lines 112 to 118), the grid with \<open>Insert\<close> and \<open>IsInNeighbourhood\<close> (lines 120
  to 157), \<open>popRandom\<close> and \<open>generateRandomPointAround\<close> (lines 159 to 184),
  \<open>generatePoissonPoints\<close> (lines 193 to 268), \<open>sampleVogelDisk\<close> and
  \<open>generateVogelPoints\<close> (lines 270 to 295), \<open>generateJitteredGridPoints\<close> (lines 302 to
  332) and \<open>radicalInverse_VdC\<close>, \<open>hammersley2d\<close> and \<open>generateHammersleyPoints\<close> (lines
  337 to 368).

  Arithmetic on \<open>float\<close> is read as single precision throughout, each operation rounded
  once; \<open>sqrt\<close>, \<open>cos\<close> and \<open>sin\<close> return the correctly rounded result. (Of \<open>cos\<close> and
  \<open>sin\<close> the theorems below use the values at 0 and, for the Vogel points, no more than
  that the result is at most 1 in absolute value and within \<open>1 / 2 ^ 25\<close> of the exact
  value; of \<open>sqrt\<close> they use the values at 1 and 4, the rounded root of 2, a lower bound on
  the root of one half, and that it is monotone.) A conversion from floating point to
  \<open>int\<close> truncates towards zero and is undefined in the source when the value does not
  fit; an index outside a vector is undefined as well. These are the first two values
  of \<open>fault\<close>. The third, \<open>FloatNotFinite\<close>, is not an undefined operation: it marks a
  result of the source that is infinite or NaN and so has no value in the model. A loop
  of the source that repeats until a random point is acceptable need not end; such a
  loop returns an \<open>option\<close>, with \<open>None\<close> for a run that does not return.

  The two arguments of the constructor call \<open>Point (randomFloat ()) (randomFloat ())\<close>
  that draws the first point of the Poisson sampler both change the generator, and the
  language leaves open which is evaluated first. \<open>evalOrder\<close> is that choice, made by
  the compiler; it is an argument of \<open>firstPoint\<close> and of \<open>generatePoissonPoints\<close>. No
  other call of the header has two arguments with effects.
\<close>

datatype fault = FloatToIntOutOfRange | IndexOutOfRange | FloatNotFinite

datatype evalOrder = LeftToRight | RightToLeft

text \<open>
  A point carries its two coordinates and the flag that tells a stored point from an
  empty grid cell. \<open>Point\<close> is the constructor from two coordinates, \<open>noPoint\<close> the
  default constructor. \<open>point_add\<close> and \<open>point_sub\<close> are the operators \<open>+\<close> and \<open>-\<close> of the
  source, which change the left operand and return it: the flag is the left operand's.
\<close>

record point =
  px :: real
  py :: real
  isValid :: bool

definition Point :: "real \<Rightarrow> real \<Rightarrow> point" where
  "Point X Y = \<lparr>px = X, py = Y, isValid = True\<rparr>"

definition noPoint :: point where
  "noPoint = \<lparr>px = 0, py = 0, isValid = False\<rparr>"

definition IsInRectangle :: "point \<Rightarrow> bool" where
  "IsInRectangle p \<longleftrightarrow> px p \<ge> 0 \<and> py p \<ge> 0 \<and> px p \<le> 1 \<and> py p \<le> 1"

definition IsInCircle :: "point \<Rightarrow> bool" where
  "IsInCircle p =
     (let fx = f32 (px p - 0.5); fy = f32 (py p - 0.5)
      in f32 (f32 (fx * fx) + f32 (fy * fy)) \<le> 0.25)"

definition point_add :: "point \<Rightarrow> point \<Rightarrow> point" where
  "point_add p q = p\<lparr>px := f32 (px p + px q), py := f32 (py p + py q)\<rparr>"

definition point_sub :: "point \<Rightarrow> point \<Rightarrow> point" where
  "point_sub p q = p\<lparr>px := f32 (px p - px q), py := f32 (py p - py q)\<rparr>"

definition GetDistance :: "point \<Rightarrow> point \<Rightarrow> real" where
  "GetDistance P1 P2 =
     f32 (sqrt (f32 (f32 (f32 (px P1 - px P2) * f32 (px P1 - px P2))
                   + f32 (f32 (py P1 - py P2) * f32 (py P1 - py P2)))))"

text \<open>
  The cell of a point is the pair of its coordinates divided by the cell size and cast
  to \<open>int\<close>. With a cell size of 0 the quotient is infinite or NaN, and the cast of a
  quotient whose integer part is not a 32-bit \<open>int\<close> is undefined: \<open>castable\<close> tells
  whether the cast is defined.
\<close>

definition castable :: "real \<Rightarrow> bool" where
  "castable q \<longleftrightarrow> - (2 ^ 31) - 1 < q \<and> q < 2 ^ 31"

definition ImageToGrid :: "point \<Rightarrow> real \<Rightarrow> fault + int \<times> int" where
  "ImageToGrid P cellSize =
     (let qx = f32 (px P / cellSize); qy = f32 (py P / cellSize)
      in if cellSize \<noteq> 0 \<and> castable qx \<and> castable qy
         then Inr (float_to_int qx, float_to_int qy)
         else Inl FloatToIntOutOfRange)"

text \<open>
  The grid is a vector of \<open>gridH\<close> rows of \<open>gridW\<close> points each, all empty at first.
  \<open>Insert\<close> writes the point at row \<open>g.x\<close>, column \<open>g.y\<close> without a check; an index
  outside the vectors is the fault \<open>IndexOutOfRange\<close>. \<open>IsInNeighbourhood\<close> scans the 11
  by 11 cells around the cell of the point, with an early return in the source that
  \<open>list_ex\<close> renders, and reads only cells with \<open>0 \<le> i < gridW\<close> and \<open>0 \<le> j < gridH\<close>;
  it indexes rows by \<open>i\<close> too, which is within the vectors for the square grids that
  \<open>generatePoissonPoints\<close> builds. The bounds of the scan, \<open>g.x - D\<close> and \<open>g.x + D\<close>, are
  \<open>int\<close> as well and are taken not to overflow: that would need an index within 5 of
  the largest \<open>int\<close>, and a grid of that width cannot be allocated.
\<close>

record grid =
  gridW :: int
  gridH :: int
  gridCellSize :: real
  cells :: "point list list"

definition Grid :: "int \<Rightarrow> int \<Rightarrow> real \<Rightarrow> grid" where
  "Grid w h cellSize =
     \<lparr>gridW = w, gridH = h, gridCellSize = cellSize,
      cells = replicate (nat h) (replicate (nat w) noPoint)\<rparr>"

definition Insert :: "grid \<Rightarrow> point \<Rightarrow> fault + grid" where
  "Insert g p =
     (case ImageToGrid p (gridCellSize g) of
        Inl e \<Rightarrow> Inl e
      | Inr (gx, gy) \<Rightarrow>
          if 0 \<le> gx \<and> nat gx < length (cells g) \<and> 0 \<le> gy \<and> nat gy < length (cells g ! nat gx)
          then Inr (g\<lparr>cells := (cells g)[nat gx := (cells g ! nat gx)[nat gy := p]]\<rparr>)
          else Inl IndexOutOfRange)"

definition IsInNeighbourhood :: "grid \<Rightarrow> point \<Rightarrow> real \<Rightarrow> real \<Rightarrow> fault + bool" where
  "IsInNeighbourhood g p minDist cellSize =
     (case ImageToGrid p cellSize of
        Inl e \<Rightarrow> Inl e
      | Inr (gx, gy) \<Rightarrow>
          (let D = 5
           in Inr (list_ex (\<lambda>i. list_ex (\<lambda>j.
                 i \<ge> 0 \<and> i < gridW g \<and> j \<ge> 0 \<and> j < gridH g \<and>
                 (let P = cells g ! nat i ! nat j in isValid P \<and> GetDistance P p < minDist))
               [gy - D .. gy + D]) [gx - D .. gx + D])))"

text \<open>
  \<open>popRandom\<close> draws an index with \<open>randomInt (size - 1)\<close>, so that the last point of a
  list of two or more is never drawn, and erases the point drawn.
  \<open>generateRandomPointAround\<close> draws a radius between \<open>minDist\<close> and twice \<open>minDist\<close> and an
  angle, and returns the point at that offset from the centre.
\<close>

definition popRandom :: "point list \<Rightarrow> 32 word \<Rightarrow> fault + point \<times> point list \<times> 32 word" where
  "popRandom points seed =
     (let (r, seed') = randomInt (word_of_int (int (length points) - 1)) seed;
          idx = unat r
      in if idx < length points
         then Inr (points ! idx, take idx points @ drop (Suc idx) points, seed')
         else Inl IndexOutOfRange)"

definition generateRandomPointAround :: "point \<Rightarrow> real \<Rightarrow> 32 word \<Rightarrow> point \<times> 32 word" where
  "generateRandomPointAround p minDist seed =
     (let (R1, seed1) = randomFloat seed;
          (R2, seed2) = randomFloat seed1;
          radius = f32 (minDist * f32 (R1 + 1));
          angle = f32 (f32 (2 * f32 (3141592653589 / 10 ^ 12)) * R2);
          X = f32 (px p + f32 (radius * f32 (cos angle)));
          Y = f32 (py p + f32 (radius * f32 (sin angle)))
      in (Point X Y, seed2))"

text \<open>
  \<open>generatePoissonPoints\<close>, in the order of the source. \<open>scaledPointCount\<close> is the
  internal target: the count doubled in \<open>uint32_t\<close>, and without \<open>isCircle\<close> multiplied
  by the double constant \<open>Pi_4\<close> and cast to \<open>int\<close>, which is undefined from 2 ^ 31 on.
  \<open>effectiveMinDist\<close> replaces a negative minimum distance by \<open>sqrt n / n\<close>; for the
  target 0 the source computes NaN there and returns before using it. The cell size
  is the minimum distance divided by the square root of 2, the grid has
  \<open>ceil (1 / cellSize)\<close> cells each way, and the cast of that number to \<open>int\<close> is undefined
  when the cell size is 0 or the number too large. \<open>firstPoint\<close> is the loop that draws
  points until one lies in the region, its two coordinates drawn in the order given;
  \<open>spawnPoints\<close> is the loop over the candidates around one point, which asks the grid
  only about candidates inside the region, and \<open>mainLoop\<close> the loop over the list of
  points still to process.
\<close>

definition Pi_4 :: real where
  "Pi_4 = f64 (785398163397448309616 / 10 ^ 21)"

definition scaledPointCount :: "32 word \<Rightarrow> bool \<Rightarrow> fault + 32 word" where
  "scaledPointCount numPoints isCircle =
     (let n = numPoints * 2
      in if \<not> isCircle
         then (let t = float_to_int (f64 (Pi_4 * real (unat n)))
               in if t < 2 ^ 31 then Inr (word_of_int t) else Inl FloatToIntOutOfRange)
         else Inr n)"

definition effectiveMinDist :: "32 word \<Rightarrow> real \<Rightarrow> real" where
  "effectiveMinDist n minDist =
     (if minDist < 0 then f32 (f32 (sqrt (f32 (real (unat n)))) / f32 (real (unat n))) else minDist)"

definition poissonCellSize :: "real \<Rightarrow> real" where
  "poissonCellSize minDist = f32 (minDist / f32 (sqrt 2))"

definition poissonGridSize :: "real \<Rightarrow> fault + int" where
  "poissonGridSize cellSize =
     (if cellSize = 0 \<or> 2 ^ 31 \<le> \<lceil>f32 (1 / cellSize)\<rceil> then Inl FloatToIntOutOfRange
      else Inr \<lceil>f32 (1 / cellSize)\<rceil>)"

definition inRegion :: "bool \<Rightarrow> point \<Rightarrow> bool" where
  "inRegion isCircle p = (if isCircle then IsInCircle p else IsInRectangle p)"

partial_function (option) firstPoint ::
  "evalOrder \<Rightarrow> bool \<Rightarrow> 32 word \<Rightarrow> (point \<times> 32 word) option" where
  "firstPoint order isCircle seed =
     (let (R1, seed1) = randomFloat seed;
          (R2, seed2) = randomFloat seed1;
          p = (case order of LeftToRight \<Rightarrow> Point R1 R2 | RightToLeft \<Rightarrow> Point R2 R1)
      in if \<not> inRegion isCircle p then firstPoint order isCircle seed2 else Some (p, seed2))"

record sampler =
  processList :: "point list"
  samplePoints :: "point list"
  samplerGrid :: grid
  prng :: "32 word"

fun spawnPoints :: "nat \<Rightarrow> point \<Rightarrow> bool \<Rightarrow> real \<Rightarrow> real \<Rightarrow> sampler \<Rightarrow> fault + sampler" where
  "spawnPoints 0 p isCircle minDist cellSize st = Inr st"
| "spawnPoints (Suc k) p isCircle minDist cellSize st =
     (let (newPoint, seed') = generateRandomPointAround p minDist (prng st)
      in if inRegion isCircle newPoint
         then (case IsInNeighbourhood (samplerGrid st) newPoint minDist cellSize of
                 Inl e \<Rightarrow> Inl e
               | Inr near \<Rightarrow>
                   if \<not> near
                   then (case Insert (samplerGrid st) newPoint of
                           Inl e \<Rightarrow> Inl e
                         | Inr g \<Rightarrow> spawnPoints k p isCircle minDist cellSize
                             \<lparr>processList = processList st @ [newPoint],
                              samplePoints = samplePoints st @ [newPoint],
                              samplerGrid = g, prng = seed'\<rparr>)
                   else spawnPoints k p isCircle minDist cellSize (st\<lparr>prng := seed'\<rparr>))
         else spawnPoints k p isCircle minDist cellSize (st\<lparr>prng := seed'\<rparr>))"

lemma spawnPoints_lengths:
  "spawnPoints k p c md cs st = Inr st' \<Longrightarrow>
     length (samplePoints st) \<le> length (samplePoints st') \<and>
     length (processList st') + length (samplePoints st) = length (processList st) + length (samplePoints st')"
proof (induction k arbitrary: st)
  case 0
  then show ?case by simp
next
  case (Suc k)
  then show ?case
    by (fastforce simp add: split_def Let_def split: if_splits sum.splits)
qed

lemma popRandom_length:
  "popRandom l s = Inr (p, l', s') \<Longrightarrow> Suc (length l') = length l"
  by (auto simp add: popRandom_def split_def Let_def split: if_splits)

function mainLoop :: "nat \<Rightarrow> nat \<Rightarrow> bool \<Rightarrow> real \<Rightarrow> real \<Rightarrow> sampler \<Rightarrow> fault + sampler" where
  "mainLoop numPoints k isCircle minDist cellSize st =
     (if processList st \<noteq> [] \<and> length (samplePoints st) \<le> numPoints
      then (case popRandom (processList st) (prng st) of
              Inl e \<Rightarrow> Inl e
            | Inr (p, rest, seed') \<Rightarrow>
                (case spawnPoints k p isCircle minDist cellSize (st\<lparr>processList := rest, prng := seed'\<rparr>) of
                   Inl e \<Rightarrow> Inl e
                 | Inr st' \<Rightarrow> mainLoop numPoints k isCircle minDist cellSize st'))
      else Inr st)"
  by pat_completeness auto
termination
proof (relation "measures [\<lambda>(n, k, c, md, cs, st). Suc n - length (samplePoints st),
                           \<lambda>(n, k, c, md, cs, st). length (processList st)]", goal_cases)
  case 1
  then show ?case by simp
next
  case (2 n k c md cs st x2 p y rest seed' st')
  have a: "spawnPoints k p c md cs (st\<lparr>processList := rest, prng := seed'\<rparr>) = Inr st'"
    using 2 by simp
  have b: "popRandom (processList st) (prng st) = Inr (p, rest, seed')"
    using 2 by simp
  from spawnPoints_lengths [OF a] popRandom_length [OF b] 2(1)
  show ?case by auto
qed

declare mainLoop.simps [simp del]


definition generatePoissonPoints ::
  "evalOrder \<Rightarrow> 32 word \<Rightarrow> 32 word \<Rightarrow> bool \<Rightarrow> 32 word \<Rightarrow> real
     \<Rightarrow> (fault + point list \<times> 32 word) option" where
  "generatePoissonPoints order numPoints seed isCircle newPointsCount minDist =
     (case scaledPointCount numPoints isCircle of
        Inl e \<Rightarrow> Some (Inl e)
      | Inr n \<Rightarrow>
          (let md = effectiveMinDist n minDist
           in if n = 0 then Some (Inr ([], seed))
              else
               (let cellSize = poissonCellSize md
                in case poissonGridSize cellSize of
                     Inl e \<Rightarrow> Some (Inl e)
                   | Inr w \<Rightarrow>
                       (case firstPoint order isCircle seed of
                          None \<Rightarrow> None
                        | Some (p0, seed0) \<Rightarrow>
                            (case Insert (Grid w w cellSize) p0 of
                               Inl e \<Rightarrow> Some (Inl e)
                             | Inr g \<Rightarrow>
                                 (case mainLoop (unat n) (unat newPointsCount) isCircle md cellSize
                                         \<lparr>processList = [p0], samplePoints = [p0],
                                          samplerGrid = g, prng = seed0\<rparr> of
                                    Inl e \<Rightarrow> Some (Inl e)
                                  | Inr st \<Rightarrow> Some (Inr (samplePoints st, prng st))))))))"

text \<open>
  The Vogel sampler. The sample count is \<open>4 * numPoints\<close> in \<open>uint32_t\<close> when \<open>isCircle\<close>
  is set, which is 0 for the counts \<open>2 ^ 30\<close>, \<open>2 ^ 31\<close> and \<open>3 * 2 ^ 30\<close>. The source then
  divides the positive root of \<open>idx + 0.5\<close> by \<open>0.0f\<close>: the radius is infinite, and
  neither coordinate of the point is a finite number. \<open>vogelLoop\<close> is the loop over the
  indices, which adds the centre to every sample and stores it without a test.
\<close>

definition sampleVogelDisk :: "32 word \<Rightarrow> 32 word \<Rightarrow> real \<Rightarrow> fault + point" where
  "sampleVogelDisk idx numPoints phi =
     (let GoldenAngle = f32 (24 / 10);
          num = f32 (sqrt (f32 (f32 (real (unat idx)) + 0.5)));
          den = f32 (sqrt (f32 (real (unat numPoints))))
      in if den = 0 then Inl FloatNotFinite
         else (let r = f32 (num / den);
                   theta = f32 (f32 (f32 (real (unat idx)) * GoldenAngle) + phi)
               in Inr (Point (f32 (r * f32 (cos theta))) (f32 (r * f32 (sin theta))))))"

fun vogelLoop :: "nat list \<Rightarrow> 32 word \<Rightarrow> real \<Rightarrow> point \<Rightarrow> point list \<Rightarrow> fault + point list" where
  "vogelLoop [] numSamples phi center points = Inr points"
| "vogelLoop (i # rest) numSamples phi center points =
     (case sampleVogelDisk (of_nat i) numSamples phi of
        Inl e \<Rightarrow> Inl e
      | Inr p \<Rightarrow> vogelLoop rest numSamples phi center (points @ [point_add p center]))"

definition generateVogelPoints :: "32 word \<Rightarrow> bool \<Rightarrow> real \<Rightarrow> point \<Rightarrow> fault + point list" where
  "generateVogelPoints numPoints isCircle phi center =
     (let numSamples = (if isCircle then 4 * numPoints else numPoints)
      in vogelLoop [0 ..< unat numPoints] numSamples
           (f32 (f32 (phi * f32 (3141592653 / 10 ^ 9)) / 180)) center [])"

text \<open>
  The jittered grid. \<open>jitterPoint\<close> is the inner loop, which draws offsets until the point
  lies in the unit square; \<open>jitterLoop\<close> runs through the cells in the order of the two
  nested loops of the source. The grid size is the square root of the count, taken in
  double precision and truncated.
\<close>

partial_function (option) jitterPoint ::
  "real \<Rightarrow> real \<Rightarrow> real \<Rightarrow> point \<Rightarrow> 32 word \<Rightarrow> (point \<times> 32 word) option" where
  "jitterPoint X Y jitterRadius center seed =
     (let (q, seed') = generateRandomPointAround (Point 0 0) jitterRadius seed;
          offset = point_add (point_sub q center) (Point 0.5 0.5);
          p = point_add (Point X Y) offset
      in if \<not> IsInRectangle p then jitterPoint X Y jitterRadius center seed' else Some (p, seed'))"

fun jitterLoop ::
  "(nat \<times> nat) list \<Rightarrow> 32 word \<Rightarrow> bool \<Rightarrow> real \<Rightarrow> point \<Rightarrow> point list \<Rightarrow> 32 word
     \<Rightarrow> (point list \<times> 32 word) option" where
  "jitterLoop [] gridSize isCircle jitterRadius center points seed = Some (points, seed)"
| "jitterLoop ((x, y) # rest) gridSize isCircle jitterRadius center points seed =
     (case jitterPoint (f32 (f32 (real x) / f32 (real (unat gridSize))))
                       (f32 (f32 (real y) / f32 (real (unat gridSize)))) jitterRadius center seed of
        None \<Rightarrow> None
      | Some (p, seed') \<Rightarrow>
          if isCircle \<and> \<not> IsInCircle p
          then jitterLoop rest gridSize isCircle jitterRadius center points seed'
          else jitterLoop rest gridSize isCircle jitterRadius center (points @ [p]) seed')"

definition generateJitteredGridPoints ::
  "32 word \<Rightarrow> 32 word \<Rightarrow> bool \<Rightarrow> real \<Rightarrow> point \<Rightarrow> (point list \<times> 32 word) option" where
  "generateJitteredGridPoints numPoints seed isCircle jitterRadius center =
     (let gridSize = (word_of_int (float_to_int (f64 (sqrt (real (unat numPoints))))) :: 32 word)
      in jitterLoop (List.product [0 ..< unat gridSize] [0 ..< unat gridSize])
           gridSize isCircle jitterRadius center [] seed)"

text \<open>
  The Hammersley points. \<open>reverseBits\<close> is the sequence of shifts and masks of
  \<open>radicalInverse_VdC\<close>; the product with the decimal literal is taken in double precision
  and converted to single precision on return.
\<close>

definition reverseBits :: "32 word \<Rightarrow> 32 word" where
  "reverseBits bits0 =
     (let bits1 = push_bit 16 bits0 OR drop_bit 16 bits0;
          bits2 = push_bit 1 (bits1 AND 0x55555555) OR drop_bit 1 (bits1 AND 0xAAAAAAAA);
          bits3 = push_bit 2 (bits2 AND 0x33333333) OR drop_bit 2 (bits2 AND 0xCCCCCCCC);
          bits4 = push_bit 4 (bits3 AND 0x0F0F0F0F) OR drop_bit 4 (bits3 AND 0xF0F0F0F0)
      in push_bit 8 (bits4 AND 0x00FF00FF) OR drop_bit 8 (bits4 AND 0xFF00FF00))"

definition radicalInverse_VdC :: "32 word \<Rightarrow> real" where
  "radicalInverse_VdC bits =
     f32 (f64 (f32 (real (unat (reverseBits bits))) * f64 (23283064365386963 / 10 ^ 26)))"

definition hammersley2d :: "32 word \<Rightarrow> 32 word \<Rightarrow> point" where
  "hammersley2d i N = Point (f32 (f32 (real (unat i)) / f32 (real (unat N)))) (radicalInverse_VdC i)"

definition generateHammersleyPoints :: "32 word \<Rightarrow> point list" where
  "generateHammersleyPoints numPoints = map (\<lambda>i. hammersley2d (of_nat i) numPoints) [0 ..< unat numPoints]"

section \<open>Properties of the rounding\<close>

lemma powi2_pos: "0 < (2::real) powi e"
  by simp

lemma powi2_mono: "a \<le> b \<Longrightarrow> (2::real) powi a \<le> 2 powi b"
  by (simp add: power_int_increasing)

lemma powi2_less_iff: "(2::real) powi a < 2 powi b \<longleftrightarrow> a < b"
proof
  assume h: "(2::real) powi a < 2 powi b"
  show "a < b"
  proof (rule ccontr)
    assume "\<not> a < b"
    then have "(2::real) powi b \<le> 2 powi a" by (simp add: power_int_increasing)
    with h show False by simp
  qed
next
  assume "a < b"
  then show "(2::real) powi a < 2 powi b" by (simp add: power_int_strict_increasing)
qed

lemma bitlen_real_bounds:
  assumes "0 < n"
  shows "(2::real) ^ nat (bitlen n - 1) \<le> of_int n" and "of_int n + 1 \<le> (2::real) ^ nat (bitlen n)"
proof -
  from bitlen_bounds [OF assms]
  have lo: "2 ^ nat (bitlen n - 1) \<le> n" and hi: "n + 1 \<le> 2 ^ nat (bitlen n)" by simp_all
  have "real_of_int (2 ^ nat (bitlen n - 1)) \<le> real_of_int n"
    using lo by (simp only: of_int_le_iff)
  then show "(2::real) ^ nat (bitlen n - 1) \<le> of_int n" by simp
  have "real_of_int (n + 1) \<le> real_of_int (2 ^ nat (bitlen n))"
    using hi by (simp only: of_int_le_iff)
  then show "of_int n + 1 \<le> (2::real) ^ nat (bitlen n)" by simp
qed

lemma ilog2_ge1:
  assumes "1 \<le> \<bar>x\<bar>"
  shows "2 powi (ilog2 x) \<le> \<bar>x\<bar> \<and> \<bar>x\<bar> < 2 powi (ilog2 x + 1)"
proof -
  define n where "n = \<lfloor>\<bar>x\<bar>\<rfloor>"
  have n: "0 < n" using assms by (simp add: n_def)
  have b1: "1 \<le> bitlen n" using n by (simp add: bitlen_alt_def)
  have fl: "real_of_int n \<le> \<bar>x\<bar>" "\<bar>x\<bar> < real_of_int n + 1"
    unfolding n_def by linarith+
  have A: "(2::real) ^ nat (bitlen n - 1) \<le> \<bar>x\<bar>"
    using bitlen_real_bounds(1) [OF n] fl by linarith
  have B: "\<bar>x\<bar> < (2::real) ^ nat (bitlen n)"
    using bitlen_real_bounds(2) [OF n] fl by linarith
  have il: "ilog2 x = bitlen n - 1" using assms by (simp add: ilog2_def n_def)
  have p1: "(2::real) powi (bitlen n - 1) = 2 ^ nat (bitlen n - 1)"
    using b1 by (simp add: power_int_def)
  have p2: "(2::real) powi (bitlen n - 1 + 1) = 2 ^ nat (bitlen n)"
    using b1 by (simp add: power_int_def)
  show ?thesis unfolding il p1 p2 using A B by simp
qed

lemma ilog2_lt1:
  assumes "x \<noteq> 0" "\<bar>x\<bar> < 1"
  shows "2 powi (ilog2 x) \<le> \<bar>x\<bar> \<and> \<bar>x\<bar> < 2 powi (ilog2 x + 1)"
proof -
  define y where "y = 1 / \<bar>x\<bar>"
  define n where "n = \<lceil>y\<rceil> - 1"
  have xpos: "0 < \<bar>x\<bar>" using assms by simp
  have y1: "1 < y" using assms xpos by (simp add: y_def)
  have n: "0 < n" unfolding n_def using y1 by linarith
  have b1: "1 \<le> bitlen n" using n by (simp add: bitlen_alt_def)
  have cl: "real_of_int n < y" "y \<le> real_of_int n + 1"
    unfolding n_def by linarith+
  have A: "(2::real) ^ nat (bitlen n - 1) < y"
    using bitlen_real_bounds(1) [OF n] cl by linarith
  have B: "y \<le> (2::real) ^ nat (bitlen n)"
    using bitlen_real_bounds(2) [OF n] cl by linarith
  have il: "ilog2 x = - bitlen n" using assms by (simp add: ilog2_def n_def y_def)
  have p1: "(2::real) powi (- bitlen n) = 1 / 2 ^ nat (bitlen n)"
    using b1 by (simp add: power_int_def field_simps)
  have p2: "(2::real) powi (- bitlen n + 1) = 1 / 2 ^ nat (bitlen n - 1)"
    using b1 by (simp add: power_int_def field_simps nat_diff_distrib)
  have "1 / 2 ^ nat (bitlen n) \<le> \<bar>x\<bar>"
    using B xpos by (simp add: y_def field_simps)
  moreover have "\<bar>x\<bar> < 1 / 2 ^ nat (bitlen n - 1)"
    using A xpos by (simp add: y_def field_simps)
  ultimately show ?thesis
    unfolding il p1 p2 by simp
qed

lemma ilog2_bounds:
  "x \<noteq> 0 \<Longrightarrow> 2 powi (ilog2 x) \<le> \<bar>x\<bar> \<and> \<bar>x\<bar> < 2 powi (ilog2 x + 1)"
  using ilog2_ge1 [of x] ilog2_lt1 [of x] by (cases "1 \<le> \<bar>x\<bar>") auto

lemma powi2_le_abs_nonzero:
  assumes "2 powi e \<le> \<bar>x::real\<bar>"
  shows "x \<noteq> 0"
proof
  assume "x = 0"
  with assms have "(2::real) powi e \<le> 0" by simp
  with powi2_pos [of e] show False by linarith
qed

lemma powi2_add: "(2::real) powi a * 2 powi b = 2 powi (a + b)"
  by (simp add: power_int_add)

lemma ilog2_unique:
  assumes "2 powi e \<le> \<bar>x\<bar>" "\<bar>x\<bar> < 2 powi (e + 1)"
  shows "ilog2 x = e"
proof -
  have x0: "x \<noteq> 0"
  proof
    assume "x = 0"
    with assms(1) have "(2::real) powi e \<le> 0" by simp
    with powi2_pos [of e] show False by linarith
  qed
  from ilog2_bounds [OF x0]
  have lo: "2 powi (ilog2 x) \<le> \<bar>x\<bar>" and hi: "\<bar>x\<bar> < 2 powi (ilog2 x + 1)" by simp_all
  have "(2::real) powi e < 2 powi (ilog2 x + 1)" using assms(1) hi by linarith
  then have a: "e < ilog2 x + 1" by (simp only: powi2_less_iff)
  have "(2::real) powi (ilog2 x) < 2 powi (e + 1)" using assms(2) lo by linarith
  then have b: "ilog2 x < e + 1" by (simp only: powi2_less_iff)
  from a b show ?thesis by simp
qed

lemma ilog2_minus [simp]: "ilog2 (- x) = ilog2 x"
  by (simp add: ilog2_def)

lemma ilog2_mono:
  assumes "x \<noteq> 0" "\<bar>x\<bar> \<le> \<bar>y\<bar>"
  shows "ilog2 x \<le> ilog2 y"
proof -
  have y0: "y \<noteq> 0" using assms by auto
  have "(2::real) powi (ilog2 x) \<le> \<bar>x\<bar>" using ilog2_bounds [OF assms(1)] by simp
  moreover have "\<bar>y\<bar> < 2 powi (ilog2 y + 1)" using ilog2_bounds [OF y0] by simp
  ultimately have "(2::real) powi (ilog2 x) < 2 powi (ilog2 y + 1)" using assms(2) by linarith
  then show ?thesis by (simp only: powi2_less_iff)
qed


lemma round_even_of_int [simp]: "round_even (of_int n) = n"
  by (simp add: round_even_def)

lemma round_even_floor_cases:
  "round_even q = \<lfloor>q\<rfloor> \<or> round_even q = \<lfloor>q\<rfloor> + 1"
  by (simp add: round_even_def Let_def)

lemma round_even_error: "\<bar>of_int (round_even q) - q\<bar> \<le> 1 / 2"
proof -
  define f where "f = \<lfloor>q\<rfloor>"
  have fl: "real_of_int f \<le> q" "q < real_of_int f + 1" unfolding f_def by linarith+
  from round_even_floor_cases [of q] show ?thesis
  proof
    assume h: "round_even q = \<lfloor>q\<rfloor>"
    then have "\<not> 1 / 2 < q - real_of_int f"
      unfolding f_def by (auto simp add: round_even_def Let_def split: if_splits)
    then show ?thesis using fl h by (simp add: f_def [symmetric] abs_if)
  next
    assume h: "round_even q = \<lfloor>q\<rfloor> + 1"
    then have "\<not> q - real_of_int f < 1 / 2"
      unfolding f_def by (auto simp add: round_even_def Let_def split: if_splits)
    then show ?thesis using fl h by (simp add: f_def [symmetric] abs_if)
  qed
qed

lemma round_even_mono:
  assumes "q \<le> r"
  shows "round_even q \<le> round_even r"
proof (cases "\<lfloor>q\<rfloor> = \<lfloor>r\<rfloor>")
  case True
  then show ?thesis using assms
    by (auto simp add: round_even_def Let_def)
next
  case False
  then have "\<lfloor>q\<rfloor> + 1 \<le> \<lfloor>r\<rfloor>" using floor_mono [OF assms] by linarith
  moreover have "round_even q \<le> \<lfloor>q\<rfloor> + 1" using round_even_floor_cases [of q] by auto
  moreover have "\<lfloor>r\<rfloor> \<le> round_even r" using round_even_floor_cases [of r] by auto
  ultimately show ?thesis by linarith
qed

lemma round_even_le_int: "q \<le> of_int n \<Longrightarrow> round_even q \<le> n"
  using round_even_mono [of q "of_int n"] by simp

lemma round_even_ge_int: "of_int n \<le> q \<Longrightarrow> n \<le> round_even q"
  using round_even_mono [of "of_int n" q] by simp

lemma ulp_pos: "0 < ulp p emin x"
  by (simp add: ulp_def)

lemma rnd_zero [simp]: "rnd p emin 0 = 0"
  by (simp add: rnd_def)

lemma rnd_error:
  "\<bar>rnd p emin x - x\<bar> \<le> ulp p emin x / 2"
proof (cases "x = 0")
  case True
  then show ?thesis using ulp_pos [of p emin x] by simp
next
  case False
  define u where "u = ulp p emin x"
  have u: "0 < u" unfolding u_def by (rule ulp_pos)
  have "\<bar>of_int (round_even (x / u)) - x / u\<bar> \<le> 1 / 2" by (rule round_even_error)
  then have "\<bar>of_int (round_even (x / u)) - x / u\<bar> * u \<le> 1 / 2 * u"
    using u by (simp only: mult_le_cancel_right_pos)
  moreover have "\<bar>of_int (round_even (x / u)) - x / u\<bar> * u = \<bar>of_int (round_even (x / u)) * u - x\<bar>"
  proof -
    have "\<bar>of_int (round_even (x / u)) - x / u\<bar> * u = \<bar>(of_int (round_even (x / u)) - x / u) * u\<bar>"
      using u by (simp add: abs_mult)
    also have "(of_int (round_even (x / u)) - x / u) * u = of_int (round_even (x / u)) * u - x"
      using u by (simp add: field_simps)
    finally show ?thesis .
  qed
  ultimately show ?thesis using False by (simp add: rnd_def u_def)
qed

lemma rnd_exact:
  assumes m: "\<bar>m\<bar> < 2 ^ p" and e: "emin - int p + 1 \<le> e" and x: "x = of_int m * 2 powi e"
  shows "rnd p emin x = x"
proof (cases "x = 0")
  case True
  then show ?thesis by simp
next
  case False
  define k where "k = max (ilog2 x) emin - int p + 1"
  have "k \<le> e"
  proof (cases "ilog2 x \<le> emin")
    case True
    then show ?thesis using e by (simp add: k_def max_def)
  next
    case f: False
    have "2 powi (ilog2 x) \<le> \<bar>x\<bar>" using ilog2_bounds [OF False] by simp
    also have "\<bar>x\<bar> = of_int \<bar>m\<bar> * 2 powi e" by (simp add: x abs_mult)
    also have "\<dots> < of_int (2 ^ p) * 2 powi e"
      using m by (simp only: mult_less_cancel_right_pos powi2_pos of_int_less_iff)
    also have "\<dots> = 2 powi (int p + e)" by (simp add: power_int_add)
    finally have "ilog2 x < int p + e" by (simp only: powi2_less_iff)
    then show ?thesis using f by (simp add: k_def max_def)
  qed
  then have "0 \<le> e - k" by simp
  then have pk: "(2::real) powi (e - k) = of_int (2 ^ nat (e - k))"
    by (simp add: power_int_def)
  have "x / 2 powi k = of_int m * (2 powi e / 2 powi k)" by (simp add: x)
  also have "2 powi e / 2 powi k = (2::real) powi (e - k)" by (simp add: power_int_diff)
  also have "real_of_int m * 2 powi (e - k) = of_int (m * 2 ^ nat (e - k))"
    unfolding pk by simp
  finally have q: "x / 2 powi k = of_int (m * 2 ^ nat (e - k))" .
  have "round_even (x / 2 powi k) = m * 2 ^ nat (e - k)"
    unfolding q by (rule round_even_of_int)
  then have "of_int (round_even (x / 2 powi k)) * 2 powi k = x / 2 powi k * 2 powi k"
    unfolding q by (simp only:)
  then show ?thesis using False by (simp add: rnd_def ulp_def k_def)
qed


lemma round_even_near:
  assumes "\<bar>q - of_int m\<bar> < 1 / 2"
  shows "round_even q = m"
proof -
  have "\<bar>real_of_int (round_even q) - q\<bar> \<le> 1 / 2" by (rule round_even_error)
  with assms have "\<bar>real_of_int (round_even q) - real_of_int m\<bar> < 1" by linarith
  then have "\<bar>real_of_int (round_even q - m)\<bar> < 1" by simp
  then have "\<bar>round_even q - m\<bar> < 1" by linarith
  then show ?thesis by simp
qed

lemma rnd_eqI:
  assumes lo: "2 powi e \<le> \<bar>x\<bar>" and hi: "\<bar>x\<bar> < 2 powi (e + 1)" and emin: "emin \<le> e"
    and near: "\<bar>x - of_int m * 2 powi (e - int p + 1)\<bar> < 2 powi (e - int p + 1) / 2"
  shows "rnd p emin x = of_int m * 2 powi (e - int p + 1)"
proof -
  define u :: real where "u = 2 powi (e - int p + 1)"
  have u: "0 < u" by (simp add: u_def)
  have x0: "x \<noteq> 0" using lo by (rule powi2_le_abs_nonzero)
  have il: "ilog2 x = e" using lo hi by (rule ilog2_unique)
  have ulp: "ulp p emin x = u" using emin by (simp add: ulp_def il u_def max_def)
  have "\<bar>x - of_int m * u\<bar> / u < (u / 2) / u"
    using near u unfolding u_def [symmetric] by (simp only: divide_strict_right_mono)
  moreover have "\<bar>x - of_int m * u\<bar> / u = \<bar>x / u - of_int m\<bar>"
  proof -
    have "\<bar>x - of_int m * u\<bar> / u = \<bar>(x - of_int m * u) / u\<bar>" using u by simp
    also have "(x - of_int m * u) / u = x / u - of_int m" using u by (simp add: field_simps)
    finally show ?thesis .
  qed
  ultimately have "\<bar>x / u - of_int m\<bar> < 1 / 2" using u by simp
  then have "round_even (x / u) = m" by (rule round_even_near)
  then show ?thesis using x0 by (simp add: rnd_def ulp u_def)
qed

lemma rnd_nonneg:
  assumes "0 \<le> x"
  shows "0 \<le> rnd p emin x"
proof -
  have "0 \<le> x / ulp p emin x" using assms ulp_pos [of p emin x] by simp
  then have "0 \<le> round_even (x / ulp p emin x)"
    using round_even_ge_int [of 0] by simp
  then show ?thesis using ulp_pos [of p emin x] by (simp add: rnd_def)
qed

lemma rnd_upper:
  assumes "0 < x" "0 < p"
  shows "rnd p emin x \<le> 2 powi (max (ilog2 x) emin + 1)"
proof -
  define E where "E = max (ilog2 x) emin"
  define u :: real where "u = 2 powi (E - int p + 1)"
  have u: "0 < u" by (simp add: u_def)
  have x0: "x \<noteq> 0" using assms by simp
  have "x < 2 powi (ilog2 x + 1)" using ilog2_bounds [OF x0] assms by simp
  also have "\<dots> \<le> 2 powi (E + 1)" by (rule powi2_mono) (simp add: E_def)
  also have "\<dots> = 2 powi (int p) * u"
    unfolding u_def powi2_add by simp
  finally have "x / u < 2 powi (int p)" using u by (simp add: field_simps)
  then have "x / u \<le> real_of_int (2 ^ p)" by simp
  then have "round_even (x / u) \<le> 2 ^ p" by (rule round_even_le_int)
  then have "real_of_int (round_even (x / u)) \<le> real_of_int (2 ^ p)"
    by (simp only: of_int_le_iff)
  then have "real_of_int (round_even (x / u)) * u \<le> real_of_int (2 ^ p) * u"
    using u by (simp only: mult_le_cancel_right_pos)
  also have "real_of_int (2 ^ p) * u = 2 powi (E + 1)"
  proof -
    have "real_of_int (2 ^ p) = 2 powi (int p)" by simp
    then show ?thesis unfolding u_def by (simp only: powi2_add) simp
  qed
  finally show ?thesis using x0 by (simp add: rnd_def ulp_def E_def u_def)
qed

lemma rnd_lower:
  assumes "0 < x" "0 < p" "emin \<le> ilog2 x"
  shows "2 powi (ilog2 x) \<le> rnd p emin x"
proof -
  define E where "E = ilog2 x"
  define u :: real where "u = 2 powi (E - int p + 1)"
  have u: "0 < u" by (simp add: u_def)
  have x0: "x \<noteq> 0" using assms by simp
  have pe: "(2::real) powi E = real_of_int (2 ^ (p - 1)) * u"
  proof -
    have "real_of_int (2 ^ (p - 1)) = 2 powi (int p - 1)"
      using assms(2) by (simp add: power_int_def nat_diff_distrib)
    then show ?thesis unfolding u_def by (simp only: powi2_add) simp
  qed
  have "2 powi E \<le> x" using ilog2_bounds [OF x0] assms by (simp add: E_def)
  then have "real_of_int (2 ^ (p - 1)) \<le> x / u" unfolding pe using u by (simp add: field_simps)
  then have "2 ^ (p - 1) \<le> round_even (x / u)" by (rule round_even_ge_int)
  then have "real_of_int (2 ^ (p - 1)) \<le> real_of_int (round_even (x / u))"
    by (simp only: of_int_le_iff)
  then have "real_of_int (2 ^ (p - 1)) * u \<le> real_of_int (round_even (x / u)) * u"
    using u by (simp only: mult_le_cancel_right_pos)
  then show ?thesis using x0 assms(3) unfolding pe [symmetric]
    by (simp add: rnd_def ulp_def E_def u_def max_def)
qed

lemma rnd_mono:
  assumes "0 \<le> x" "x \<le> y" "0 < p"
  shows "rnd p emin x \<le> rnd p emin y"
proof (cases "x = 0")
  case True
  then show ?thesis using assms rnd_nonneg [of y p emin] by simp
next
  case False
  then have x: "0 < x" and y: "0 < y" using assms by simp_all
  have le: "ilog2 x \<le> ilog2 y" using assms False by (intro ilog2_mono) simp_all
  show ?thesis
  proof (cases "max (ilog2 x) emin = max (ilog2 y) emin")
    case True
    then have u: "ulp p emin x = ulp p emin y" by (simp add: ulp_def)
    have "x / ulp p emin y \<le> y / ulp p emin y"
      using assms(2) ulp_pos [of p emin y] by (simp add: divide_right_mono)
    then have "round_even (x / ulp p emin y) \<le> round_even (y / ulp p emin y)"
      by (rule round_even_mono)
    then have "real_of_int (round_even (x / ulp p emin y)) * ulp p emin y
        \<le> real_of_int (round_even (y / ulp p emin y)) * ulp p emin y"
      using ulp_pos [of p emin y] by (simp only: mult_le_cancel_right_pos of_int_le_iff)
    then show ?thesis using x y by (simp add: rnd_def u)
  next
    case False
    then have lt: "max (ilog2 x) emin < ilog2 y" and ey: "emin \<le> ilog2 y"
      using le by (auto simp add: max_def split: if_splits)
    have "rnd p emin x \<le> 2 powi (max (ilog2 x) emin + 1)"
      using x assms(3) by (rule rnd_upper)
    also have "\<dots> \<le> 2 powi (ilog2 y)"
    proof (rule powi2_mono)
      show "max (ilog2 x) emin + 1 \<le> ilog2 y" using lt by linarith
    qed
    also have "\<dots> \<le> rnd p emin y" using y assms(3) ey by (rule rnd_lower)
    finally show ?thesis .
  qed
qed

lemma f32_exact:
  "\<bar>m\<bar> < 2 ^ 24 \<Longrightarrow> - 149 \<le> e \<Longrightarrow> f32 (of_int m * 2 powi e) = of_int m * 2 powi e"
  unfolding f32_def by (rule rnd_exact [where m = m and e = e]) simp_all

lemma rnd_scale_less:
  assumes x: "0 < x" and en: "emin \<le> ilog2 x" and p: "0 < p"
    and r0: "0 \<le> r" and r1: "r \<le> 1 - 2 powi (1 - int p)"
  shows "rnd p emin (r * rnd p emin x) < x"
proof -
  define E where "E = ilog2 x"
  define u :: real where "u = 2 powi (E - int p + 1)"
  define N where "N = round_even (x / u)"
  have u: "0 < u" by (simp add: u_def)
  have x0: "x \<noteq> 0" using x by simp
  have ulp: "ulp p emin x = u" using en by (simp add: ulp_def u_def E_def max_def)
  have fb: "rnd p emin x = of_int N * u" using x0 by (simp add: rnd_def ulp N_def)
  have pe: "(2::real) powi E = real_of_int (2 ^ (p - 1)) * u"
  proof -
    have "real_of_int (2 ^ (p - 1)) = 2 powi (int p - 1)"
      using p by (simp add: power_int_def nat_diff_distrib)
    then show ?thesis unfolding u_def by (simp only: powi2_add) simp
  qed
  have pe1: "(2::real) powi (E + 1) = real_of_int (2 ^ p) * u"
  proof -
    have "real_of_int (2 ^ p) = 2 powi (int p)" by simp
    then show ?thesis unfolding u_def by (simp only: powi2_add) simp
  qed
  have xb: "2 powi E \<le> x" "x < 2 powi (E + 1)"
    using ilog2_bounds [OF x0] x by (simp_all add: E_def)
  have "real_of_int (2 ^ (p - 1)) \<le> x / u" using xb(1) u unfolding pe by (simp add: field_simps)
  then have Nlo: "2 ^ (p - 1) \<le> N" unfolding N_def by (rule round_even_ge_int)
  have "x / u \<le> real_of_int (2 ^ p)" using xb(2) u unfolding pe1 by (simp add: field_simps)
  then have Nhi: "N \<le> 2 ^ p" unfolding N_def by (rule round_even_le_int)
  have Nlo': "2 powi (int p - 1) \<le> real_of_int N"
  proof -
    have "real_of_int (2 ^ (p - 1)) \<le> real_of_int N" using Nlo by (simp only: of_int_le_iff)
    moreover have "real_of_int (2 ^ (p - 1)) = 2 powi (int p - 1)"
      using p by (simp add: power_int_def nat_diff_distrib)
    ultimately show ?thesis by (simp only:)
  qed
  have Npos: "0 < real_of_int N" using Nlo' powi2_pos [of "int p - 1"] by linarith
  have "r * real_of_int N \<le> (1 - 2 powi (1 - int p)) * real_of_int N"
    using r1 Npos by (simp only: mult_le_cancel_right_pos)
  also have "\<dots> = real_of_int N - 2 powi (1 - int p) * real_of_int N" by (simp add: algebra_simps)
  also have "\<dots> \<le> real_of_int N - 2 powi (1 - int p) * 2 powi (int p - 1)"
    using Nlo' by simp
  also have "2 powi (1 - int p) * 2 powi (int p - 1) = (1::real)"
    by (simp only: powi2_add) simp
  finally have "r * real_of_int N \<le> real_of_int (N - 1)" by simp
  then have "r * real_of_int N * u \<le> real_of_int (N - 1) * u"
    using u by (simp only: mult_le_cancel_right_pos)
  then have le: "r * rnd p emin x \<le> real_of_int (N - 1) * u" by (simp add: fb mult.assoc)
  have nn: "0 \<le> r * rnd p emin x" using r0 rnd_nonneg [of x p emin] x by simp
  have ex: "rnd p emin (real_of_int (N - 1) * u) = real_of_int (N - 1) * u"
  proof (rule rnd_exact [where m = "N - 1" and e = "E - int p + 1"])
    have "0 < N" using Npos by simp
    then show "\<bar>N - 1\<bar> < 2 ^ p" using Nhi by simp
    show "emin - int p + 1 \<le> E - int p + 1" using en by (simp add: E_def)
    show "real_of_int (N - 1) * u = real_of_int (N - 1) * 2 powi (E - int p + 1)" by (simp add: u_def)
  qed
  have "rnd p emin (r * rnd p emin x) \<le> rnd p emin (real_of_int (N - 1) * u)"
    using nn le p by (rule rnd_mono)
  also note ex
  also have "real_of_int (N - 1) * u < x"
  proof -
    have "\<bar>rnd p emin x - x\<bar> \<le> u / 2" using rnd_error [of p emin x] by (simp add: ulp)
    then have "real_of_int N * u - u / 2 \<le> x" unfolding fb by linarith
    moreover have "real_of_int (N - 1) * u = real_of_int N * u - u" by (simp add: algebra_simps)
    ultimately show ?thesis using u by linarith
  qed
  finally show ?thesis .
qed

lemma rnd_normal_form:
  assumes x: "0 < x" and en: "emin \<le> ilog2 x" and p: "0 < p"
  obtains N where "rnd p emin x = of_int N * 2 powi (ilog2 x - int p + 1)"
    and "2 ^ (p - 1) \<le> N" and "N \<le> 2 ^ p"
proof -
  define E where "E = ilog2 x"
  define u :: real where "u = 2 powi (E - int p + 1)"
  define N where "N = round_even (x / u)"
  have u: "0 < u" by (simp add: u_def)
  have x0: "x \<noteq> 0" using x by simp
  have ulp: "ulp p emin x = u" using en by (simp add: ulp_def u_def E_def max_def)
  have fb: "rnd p emin x = of_int N * u" using x0 by (simp add: rnd_def ulp N_def)
  have pe: "(2::real) powi E = real_of_int (2 ^ (p - 1)) * u"
  proof -
    have "real_of_int (2 ^ (p - 1)) = 2 powi (int p - 1)"
      using p by (simp add: power_int_def nat_diff_distrib)
    then show ?thesis unfolding u_def by (simp only: powi2_add) simp
  qed
  have pe1: "(2::real) powi (E + 1) = real_of_int (2 ^ p) * u"
  proof -
    have "real_of_int (2 ^ p) = 2 powi (int p)" by simp
    then show ?thesis unfolding u_def by (simp only: powi2_add) simp
  qed
  have xb: "2 powi E \<le> x" "x < 2 powi (E + 1)"
    using ilog2_bounds [OF x0] x by (simp_all add: E_def)
  have "real_of_int (2 ^ (p - 1)) \<le> x / u" using xb(1) u unfolding pe by (simp add: field_simps)
  then have Nlo: "2 ^ (p - 1) \<le> N" unfolding N_def by (rule round_even_ge_int)
  have "x / u \<le> real_of_int (2 ^ p)" using xb(2) u unfolding pe1 by (simp add: field_simps)
  then have Nhi: "N \<le> 2 ^ p" unfolding N_def by (rule round_even_le_int)
  show thesis using that [of N] fb Nlo Nhi by (simp add: u_def E_def)
qed

lemma rnd_rnd_scaled:
  assumes x: "0 < x" and en: "emin \<le> ilog2 x" and p: "0 < p" and pp: "p \<le> p'"
    and k: "emin' \<le> ilog2 x + k"
  shows "rnd p' emin' (rnd p emin x * 2 powi k) = rnd p emin x * 2 powi k"
proof -
  obtain N where N: "rnd p emin x = of_int N * 2 powi (ilog2 x - int p + 1)"
    and lo: "2 ^ (p - 1) \<le> N" and hi: "N \<le> 2 ^ p"
    using rnd_normal_form [OF x en p] by blast
  have Npos: "0 < N"
  proof -
    have "(0::int) < 2 ^ (p - 1)" by simp
    with lo show ?thesis by linarith
  qed
  have pw: "(2::int) ^ p \<le> 2 ^ p'" using pp by (simp add: power_increasing)
  show ?thesis
  proof (cases "N = 2 ^ p")
    case False
    show ?thesis
    proof (rule rnd_exact [where m = N and e = "ilog2 x - int p + 1 + k"])
      have "N < 2 ^ p" using False hi by linarith
      then show "\<bar>N\<bar> < 2 ^ p'" using Npos pw by linarith
      show "emin' - int p' + 1 \<le> ilog2 x - int p + 1 + k" using k pp by simp
      show "rnd p emin x * 2 powi k = real_of_int N * 2 powi (ilog2 x - int p + 1 + k)"
        unfolding N by (simp add: powi2_add [symmetric])
    qed
  next
    case True
    show ?thesis
    proof (rule rnd_exact [where m = "2 ^ (p - 1)" and e = "ilog2 x - int p + 2 + k"])
      have "(2::int) ^ (p - 1) < 2 ^ p" using p by (simp add: power_strict_increasing)
      moreover have "(0::int) < 2 ^ (p - 1)" by simp
      ultimately show "\<bar>(2::int) ^ (p - 1)\<bar> < 2 ^ p'" using pw by linarith
      show "emin' - int p' + 1 \<le> ilog2 x - int p + 2 + k" using k pp by simp
      have "real_of_int (2 ^ p) = 2 powi (int p)" by simp
      moreover have "real_of_int (2 ^ (p - 1)) = 2 powi (int p - 1)"
        using p by (simp add: power_int_def nat_diff_distrib)
      ultimately show "rnd p emin x * 2 powi k = real_of_int (2 ^ (p - 1)) * 2 powi (ilog2 x - int p + 2 + k)"
        unfolding N True by (simp only: powi2_add mult.assoc) (simp add: add.commute add.left_commute)
    qed
  qed
qed

lemma rnd_le:
  assumes "0 \<le> x" "x \<le> of_int m * 2 powi e" "\<bar>m\<bar> < 2 ^ p" "emin - int p + 1 \<le> e" "0 < p"
  shows "rnd p emin x \<le> of_int m * 2 powi e"
proof -
  have "rnd p emin x \<le> rnd p emin (of_int m * 2 powi e)"
    using assms(1,2,5) by (rule rnd_mono)
  also have "\<dots> = of_int m * 2 powi e"
    using assms(3,4) by (rule rnd_exact) simp
  finally show ?thesis .
qed

lemma rnd_ge:
  assumes "0 \<le> m" "of_int m * 2 powi e \<le> x" "\<bar>m\<bar> < 2 ^ p" "emin - int p + 1 \<le> e" "0 < p"
  shows "of_int m * 2 powi e \<le> rnd p emin x"
proof -
  have "of_int m * 2 powi e = rnd p emin (of_int m * 2 powi e)"
    using assms(3,4) by (rule rnd_exact [symmetric]) simp
  also have "\<dots> \<le> rnd p emin x"
  proof (rule rnd_mono)
    show "0 \<le> real_of_int m * 2 powi e" using assms(1) by simp
  qed (use assms in simp_all)
  finally show ?thesis .
qed

lemma f32_le: "0 \<le> x \<Longrightarrow> x \<le> of_int m * 2 powi e \<Longrightarrow> \<bar>m\<bar> < 2 ^ 24 \<Longrightarrow> - 149 \<le> e
    \<Longrightarrow> f32 x \<le> of_int m * 2 powi e"
  unfolding f32_def by (rule rnd_le) simp_all

lemma f32_ge: "0 \<le> m \<Longrightarrow> of_int m * 2 powi e \<le> x \<Longrightarrow> \<bar>m\<bar> < 2 ^ 24 \<Longrightarrow> - 149 \<le> e
    \<Longrightarrow> of_int m * 2 powi e \<le> f32 x"
  unfolding f32_def by (rule rnd_ge) simp_all

lemma f64_exact:
  "\<bar>m\<bar> < 2 ^ 53 \<Longrightarrow> - 1074 \<le> e \<Longrightarrow> f64 (of_int m * 2 powi e) = of_int m * 2 powi e"
  unfolding f64_def by (rule rnd_exact [where m = m and e = e]) simp_all

lemma f32_int: "\<bar>m\<bar> < 2 ^ 24 \<Longrightarrow> f32 (of_int m) = of_int m"
  using f32_exact [of m 0] by simp

lemma f32_0 [simp]: "f32 0 = 0" by (simp add: f32_def)
lemma f32_1 [simp]: "f32 1 = 1" using f32_int [of 1] by simp
lemma f32_m1 [simp]: "f32 (- 1) = - 1" using f32_int [of "- 1"] by simp
lemma f32_2 [simp]: "f32 2 = 2" using f32_int [of 2] by simp
lemma f32_4 [simp]: "f32 4 = 4" using f32_int [of 4] by simp
lemma f32_half [simp]: "f32 (1 / 2) = 1 / 2" using f32_exact [of 1 "- 1"] by (simp add: power_int_minus)
lemma f32_quarter [simp]: "f32 (1 / 4) = 1 / 4" using f32_exact [of 1 "- 2"] by (simp add: power_int_minus)
lemma f32_3quarter [simp]: "f32 (3 / 4) = 3 / 4" using f32_exact [of 3 "- 2"] by (simp add: power_int_minus)
lemma f64_0 [simp]: "f64 0 = 0" by (simp add: f64_def)

lemma f64_eqI:
  assumes "2 powi e \<le> \<bar>x\<bar>" "\<bar>x\<bar> < 2 powi (e + 1)" "- 1022 \<le> e"
    and "\<bar>x - of_int m * 2 powi (e - 52)\<bar> < 2 powi (e - 52) / 2"
  shows "f64 x = of_int m * 2 powi (e - 52)"
  unfolding f64_def using rnd_eqI [where p = 53 and emin = "- 1022", OF assms(1,2,3), of m] assms(4)
  by simp

lemma f32_mono: "0 \<le> a \<Longrightarrow> a \<le> b \<Longrightarrow> f32 a \<le> f32 b"
  unfolding f32_def by (rule rnd_mono) simp_all

lemma f32_nonneg: "0 \<le> a \<Longrightarrow> 0 \<le> f32 a"
  unfolding f32_def by (rule rnd_nonneg)

lemma ilog2_ge_0: "1 \<le> a \<Longrightarrow> 0 \<le> ilog2 a"
proof -
  assume a: "1 \<le> a"
  have "ilog2 1 \<le> ilog2 a" using a by (intro ilog2_mono) simp_all
  moreover have "ilog2 1 = 0" by (rule ilog2_unique) simp_all
  ultimately show ?thesis by simp
qed

lemma round_even_minus: "round_even (- q) = - round_even q"
proof (cases "q = of_int \<lfloor>q\<rfloor>")
  case True
  then obtain n where n: "q = of_int n" ..
  have "round_even (of_int (- n)) = - n" by (rule round_even_of_int)
  then show ?thesis by (simp add: n)
next
  case False
  define f where "f = \<lfloor>q\<rfloor>"
  define d where "d = q - of_int f"
  have fl: "of_int f < q" "q < of_int f + 1"
    using False unfolding f_def by linarith+
  have fm: "\<lfloor>- q\<rfloor> = - f - 1"
    using fl by (simp add: floor_eq_iff)
  have dm: "- q - of_int (- f - 1) = 1 - d" by (simp add: d_def)
  have ev: "even (- f - 1) \<longleftrightarrow> odd f" by simp
  have a: "round_even q = (if d < 1 / 2 then f else if 1 / 2 < d then f + 1 else if even f then f else f + 1)"
    by (simp add: round_even_def Let_def f_def d_def)
  have b: "round_even (- q) = (if 1 - d < 1 / 2 then - f - 1 else if 1 / 2 < 1 - d then - f
       else if odd f then - f - 1 else - f)"
    unfolding round_even_def Let_def fm dm ev by simp
  show ?thesis unfolding a b by auto
qed

lemma rnd_minus: "rnd p emin (- x) = - rnd p emin x"
  by (simp add: rnd_def ulp_def round_even_minus)

lemma f32_minus [simp]: "f32 (- x) = - f32 x"
  by (simp add: f32_def rnd_minus)

lemma ulp_le:
  assumes "x \<noteq> 0" "\<bar>x\<bar> < 2 powi (e + 1)" "emin \<le> e"
  shows "ulp p emin x \<le> 2 powi (e - int p + 1)"
proof -
  have "2 powi (ilog2 x) \<le> \<bar>x\<bar>" using ilog2_bounds [OF assms(1)] by simp
  with assms(2) have "(2::real) powi (ilog2 x) < 2 powi (e + 1)" by linarith
  then have "ilog2 x < e + 1" by (simp only: powi2_less_iff)
  then have "max (ilog2 x) emin - int p + 1 \<le> e - int p + 1" using assms(3) by simp
  then show ?thesis unfolding ulp_def by (rule powi2_mono)
qed

lemma f32_error_unit:
  assumes "0 \<le> x" "x < 1"
  shows "\<bar>f32 x - x\<bar> \<le> 1 / 2 ^ 25"
proof (cases "x = 0")
  case True
  then show ?thesis by simp
next
  case False
  have "ulp 24 (- 126) x \<le> 2 powi (- 1 - int 24 + 1)"
    by (rule ulp_le) (use assms False in simp_all)
  moreover have "\<bar>f32 x - x\<bar> \<le> ulp 24 (- 126) x / 2"
    unfolding f32_def by (rule rnd_error)
  ultimately show ?thesis by (simp add: power_int_minus)
qed

lemma f32_error_u32:
  assumes "0 \<le> x" "x < 2 ^ 32"
  shows "\<bar>f32 x - x\<bar> \<le> 2 ^ 7"
proof (cases "x = 0")
  case True
  then show ?thesis by simp
next
  case False
  have "ulp 24 (- 126) x \<le> 2 powi (31 - int 24 + 1)"
    by (rule ulp_le) (use assms False in simp_all)
  moreover have "\<bar>f32 x - x\<bar> \<le> ulp 24 (- 126) x / 2"
    unfolding f32_def by (rule rnd_error)
  ultimately show ?thesis by simp
qed

text \<open>Values that are represented exactly, used when the samplers are run on concrete inputs.\<close>

lemma f32_3 [simp]: "f32 3 = 3" using f32_int [of 3] by simp

lemma f32_16th [simp]: "f32 (1 / 16) = 1 / 16"
  using f32_exact [of 1 "- 4"] by (simp add: power_int_minus)

lemma f32_5_16th [simp]: "f32 (5 / 16) = 5 / 16"
  using f32_exact [of 5 "- 4"] by (simp add: power_int_minus)

lemma f32_2_30: "f32 1073741824 = 1073741824"
  using f32_exact [of 1 30] by simp

lemma f32_2_31: "f32 2147483648 = 2147483648"
  using f32_exact [of 1 31] by simp

lemma f32_3_2_30: "f32 3221225472 = 3221225472"
  using f32_exact [of 3 30] by simp

lemma f32_2_32: "f32 (2 ^ 32) = 2 ^ 32"
  using f32_exact [of 1 32] by simp

lemma f64_2 [simp]: "f64 2 = 2"
  using f64_exact [of 2 0] by simp

lemma f32_of_nat_small:
  assumes "k \<le> 2 ^ 24"
  shows "f32 (real k) = real k"
proof (cases "k = 2 ^ 24")
  case True
  then show ?thesis using f32_exact [of 1 24] by simp
next
  case False
  with assms have "k < 2 ^ 24" by simp
  then have "int k < 2 ^ 24" by (simp flip: of_nat_less_iff)
  then have "\<bar>int k\<bar> < 2 ^ 24" by simp
  from f32_int [OF this] show ?thesis by simp
qed

text \<open>The square roots that occur in the runs below, enclosed between representable numbers.\<close>

lemma sqrt2_bounds: "5 / 4 \<le> sqrt 2" "sqrt 2 \<le> 3 / 2"
proof -
  show "5 / 4 \<le> sqrt 2" by (rule real_le_rsqrt) (simp add: power2_eq_square)
  show "sqrt 2 \<le> 3 / 2" by (rule real_le_lsqrt) (simp_all add: power2_eq_square)
qed

lemma f32_sqrt2_bounds: "5 / 4 \<le> f32 (sqrt 2)" "f32 (sqrt 2) \<le> 3 / 2"
proof -
  have "of_int 5 * 2 powi (- 2) \<le> f32 (sqrt 2)"
    by (rule f32_ge) (use sqrt2_bounds in \<open>simp_all add: power_int_minus\<close>)
  then show "5 / 4 \<le> f32 (sqrt 2)" by (simp add: power_int_minus)
  have "f32 (sqrt 2) \<le> of_int 3 * 2 powi (- 1)"
    by (rule f32_le) (use sqrt2_bounds in \<open>simp_all add: power_int_minus\<close>)
  then show "f32 (sqrt 2) \<le> 3 / 2" by (simp add: power_int_minus)
qed

lemma f32_sqrt2_half: "f32 (f32 (sqrt 2) / 2) = f32 (sqrt 2) / 2"
proof -
  have "ilog2 (sqrt 2) = 0"
    by (rule ilog2_unique) (use sqrt2_bounds in simp_all)
  then have "f32 (f32 (sqrt 2) * 2 powi (- 1)) = f32 (sqrt 2) * 2 powi (- 1)"
    unfolding f32_def by (intro rnd_rnd_scaled) simp_all
  then show ?thesis by (simp add: power_int_minus)
qed

lemma sqrt_half_bound: "11 / 16 \<le> sqrt (1 / 2)"
  by (rule real_le_rsqrt) (simp add: power2_eq_square)

text \<open>
  Scaling by a power of two commutes with rounding; rounding is idempotent; a number
  from \<open>2 ^ 24\<close> on absorbs the addition of one half; rounding does not increase the
  absolute value beyond a representable bound, and moves a number of absolute value at
  most 1 by at most \<open>1 / 2 ^ 25\<close>.
\<close>

lemma ilog2_times_pow2:
  assumes "x \<noteq> 0"
  shows "ilog2 (2 powi k * x) = ilog2 x + k"
proof (rule ilog2_unique)
  from ilog2_bounds [OF assms]
  have b: "2 powi (ilog2 x) \<le> \<bar>x\<bar>" "\<bar>x\<bar> < 2 powi (ilog2 x + 1)" by simp_all
  have a: "\<bar>2 powi k * x\<bar> = 2 powi k * \<bar>x\<bar>"
    using powi2_pos [of k] by (simp add: abs_mult)
  have "2 powi k * 2 powi (ilog2 x) \<le> 2 powi k * \<bar>x\<bar>"
    using b(1) powi2_pos [of k] by simp
  then show "2 powi (ilog2 x + k) \<le> \<bar>2 powi k * x\<bar>"
    unfolding a powi2_add by (simp add: add.commute)
  have "2 powi k * \<bar>x\<bar> < 2 powi k * 2 powi (ilog2 x + 1)"
    using b(2) powi2_pos [of k] by simp
  then show "\<bar>2 powi k * x\<bar> < 2 powi (ilog2 x + k + 1)"
    unfolding a powi2_add by (simp add: add.commute add.left_commute)
qed

lemma rnd_times_pow2:
  assumes x: "x \<noteq> 0" and en: "emin \<le> ilog2 x" and k: "0 \<le> k"
  shows "rnd p emin (2 powi k * x) = 2 powi k * rnd p emin x"
proof -
  have nz: "2 powi k * x \<noteq> 0" using x powi2_pos [of k] by simp
  have m1: "max (ilog2 x + k) emin = ilog2 x + k" using en k by simp
  have m2: "max (ilog2 x) emin = ilog2 x" using en by simp
  have u: "ulp p emin (2 powi k * x) = 2 powi k * ulp p emin x"
    unfolding ulp_def ilog2_times_pow2 [OF x] m1 m2 powi2_add
    by (simp add: algebra_simps)
  have q: "2 powi k * x / (2 powi k * ulp p emin x) = x / ulp p emin x"
    using powi2_pos [of k] by simp
  show ?thesis
    using x nz unfolding rnd_def u q by simp
qed

lemma f32_times_2: "1 \<le> x \<Longrightarrow> f32 (2 * x) = 2 * f32 x"
proof -
  assume x: "1 \<le> x"
  then have "0 \<le> ilog2 x" by (rule ilog2_ge_0)
  then have "- 126 \<le> ilog2 x" by simp
  from rnd_times_pow2 [of x "- 126" 1 24] x this show ?thesis
    by (simp add: f32_def)
qed

lemma f32_times_4: "1 \<le> x \<Longrightarrow> f32 (4 * x) = 4 * f32 x"
proof -
  assume x: "1 \<le> x"
  then have "0 \<le> ilog2 x" by (rule ilog2_ge_0)
  then have "- 126 \<le> ilog2 x" by simp
  from rnd_times_pow2 [of x "- 126" 2 24] x this show ?thesis
    by (simp add: f32_def)
qed

lemma f32_ge_1: "1 \<le> x \<Longrightarrow> 1 \<le> f32 x"
  using f32_mono [of 1 x] by simp

lemma f32_idem_ge_1: "1 \<le> x \<Longrightarrow> f32 (f32 x) = f32 x"
proof -
  assume x: "1 \<le> x"
  then have "0 \<le> ilog2 x" by (rule ilog2_ge_0)
  then have e: "- 126 \<le> ilog2 x" by simp
  from rnd_rnd_scaled [of x "- 126" 24 24 "- 126" 0] x e show ?thesis
    by (simp add: f32_def)
qed

lemma f32_absorb_half:
  assumes "2 ^ 24 \<le> x"
  shows "f32 (f32 x + 1 / 2) = f32 x"
proof -
  define e where "e = ilog2 x"
  have x0: "0 < x" using assms by (simp add: less_le_trans [of 0 "2 ^ 24"])
  have b: "2 powi e \<le> x" "x < 2 powi (e + 1)"
    using ilog2_bounds [of x] x0 by (simp_all add: e_def)
  have e24: "24 \<le> e"
  proof (rule ccontr)
    assume "\<not> 24 \<le> e"
    then have "e + 1 \<le> 24" by simp
    then have "(2::real) powi (e + 1) \<le> 2 powi 24" by (rule powi2_mono)
    with b(2) assms show False by simp
  qed
  then have en: "- 126 \<le> ilog2 x" by (simp add: e_def)
  obtain N where N: "rnd 24 (- 126) x = of_int N * 2 powi (ilog2 x - int 24 + 1)"
    and Nl: "2 ^ (24 - 1) \<le> N" and Nu: "N \<le> 2 ^ 24"
    using rnd_normal_form [OF x0 en, of 24] by auto
  have u: "f32 x = of_int N * 2 powi (e - 23)"
    using N by (simp add: f32_def e_def)
  have s: "(2::real) \<le> 2 powi (e - 23)"
    using powi2_mono [of 1 "e - 23"] e24 by simp
  show ?thesis
  proof (cases "N = 2 ^ 24")
    case True
    have u2: "f32 x = of_int (2 ^ 23) * 2 powi (e + 1 - int 24 + 1)"
    proof -
      have "(2::real) ^ 24 * 2 powi (e - 23) = 2 powi 24 * 2 powi (e - 23)" by simp
      also have "\<dots> = 2 powi (e + 1)" unfolding powi2_add by (simp add: add.commute)
      finally have a: "f32 x = 2 powi (e + 1)" unfolding u True by simp
      have "(2::real) ^ 23 * 2 powi (e + 1 - 24 + 1) = 2 powi 23 * 2 powi (e + 1 - 24 + 1)" by simp
      also have "\<dots> = 2 powi (e + 1)" unfolding powi2_add by (simp add: add.commute)
      finally show ?thesis using a by simp
    qed
    have v: "f32 x = 2 powi (e + 1)"
    proof -
      have "(2::real) ^ 24 * 2 powi (e - 23) = 2 powi 24 * 2 powi (e - 23)" by simp
      also have "\<dots> = 2 powi (e + 1)" unfolding powi2_add by (simp add: add.commute)
      finally show ?thesis unfolding u True by simp
    qed
    have big: "(4::real) \<le> 2 powi (e + 1 - int 24 + 1)"
      using powi2_mono [of 2 "e + 1 - int 24 + 1"] e24 by simp
    have "rnd 24 (- 126) (f32 x + 1 / 2) = of_int (2 ^ 23) * 2 powi (e + 1 - int 24 + 1)"
    proof (rule rnd_eqI)
      show "2 powi (e + 1) \<le> \<bar>f32 x + 1 / 2\<bar>" unfolding v using powi2_pos [of "e + 1"] by simp
      have "(1::real) \<le> 2 powi (e + 1)" using powi2_mono [of 0 "e + 1"] e24 by simp
      moreover have "(2::real) powi (e + 1 + 1) = 2 * 2 powi (e + 1)"
        by (simp add: power_int_add)
      ultimately show "\<bar>f32 x + 1 / 2\<bar> < 2 powi (e + 1 + 1)"
        unfolding v using powi2_pos [of "e + 1"] by simp
      show "- 126 \<le> e + 1" using e24 by simp
      show "\<bar>f32 x + 1 / 2 - of_int (2 ^ 23) * 2 powi (e + 1 - int 24 + 1)\<bar>
          < 2 powi (e + 1 - int 24 + 1) / 2"
        unfolding u2 [symmetric] using big by simp
    qed
    then show ?thesis unfolding f32_def [symmetric] u2 [symmetric] .
  next
    case False
    with Nu have Nlt: "N + 1 \<le> 2 ^ 24" by simp
    have Npos: "0 < N" using Nl by (simp add: less_le_trans [of 0 "2 ^ 23"])
    have lo: "2 powi e \<le> f32 x"
    proof -
      have "2 powi (ilog2 x) \<le> rnd 24 (- 126) x"
        by (rule rnd_lower [OF x0 _ en]) simp
      then show ?thesis by (simp add: f32_def e_def)
    qed
    have "rnd 24 (- 126) (f32 x + 1 / 2) = of_int N * 2 powi (e - int 24 + 1)"
    proof (rule rnd_eqI)
      show "2 powi e \<le> \<bar>f32 x + 1 / 2\<bar>" using lo powi2_pos [of e] by simp
      have "f32 x + 1 / 2 < of_int N * 2 powi (e - 23) + 2 powi (e - 23)"
        unfolding u using s by simp
      also have "\<dots> = of_int (N + 1) * 2 powi (e - 23)" by (simp add: algebra_simps)
      also have "\<dots> \<le> 2 ^ 24 * 2 powi (e - 23)"
      proof (rule mult_right_mono)
        have "(of_int (N + 1) :: real) \<le> of_int (2 ^ 24)" using Nlt by (simp only: of_int_le_iff)
        then show "(of_int (N + 1) :: real) \<le> 2 ^ 24" by simp
        show "(0::real) \<le> 2 powi (e - 23)" using powi2_pos [of "e - 23"] by simp
      qed
      also have "\<dots> = 2 powi 24 * 2 powi (e - 23)" by simp
      also have "\<dots> = 2 powi (e + 1)" unfolding powi2_add by (simp add: add.commute)
      finally have "f32 x + 1 / 2 < 2 powi (e + 1)" .
      moreover have "0 \<le> f32 x + 1 / 2" using lo powi2_pos [of e] by linarith
      ultimately show "\<bar>f32 x + 1 / 2\<bar> < 2 powi (e + 1)" by simp
      show "- 126 \<le> e" using e24 by simp
      have "e - int 24 + 1 = e - 23" by simp
      then show "\<bar>f32 x + 1 / 2 - of_int N * 2 powi (e - int 24 + 1)\<bar> < 2 powi (e - int 24 + 1) / 2"
        unfolding u using s by simp
    qed
    then show ?thesis unfolding f32_def [symmetric] u by simp
  qed
qed

lemma f32_abs_le:
  assumes "\<bar>x\<bar> \<le> y"
  shows "\<bar>f32 x\<bar> \<le> f32 y"
proof (cases "0 \<le> x")
  case True
  then have "f32 x \<le> f32 y" using assms by (intro f32_mono) simp_all
  moreover have "0 \<le> f32 x" using True by (rule f32_nonneg)
  ultimately show ?thesis by simp
next
  case False
  then have "f32 (- x) \<le> f32 y" using assms by (intro f32_mono) simp_all
  moreover have "0 \<le> f32 (- x)" using False by (intro f32_nonneg) simp
  ultimately show ?thesis by simp
qed

lemma f32_error_abs_unit:
  assumes "\<bar>x\<bar> \<le> 1"
  shows "\<bar>f32 x - x\<bar> \<le> 1 / 2 ^ 25"
proof -
  have pos: "\<bar>f32 z - z\<bar> \<le> 1 / 2 ^ 25" if "0 \<le> z" "z \<le> 1" for z
  proof (cases "z = 1")
    case True
    then show ?thesis by simp
  next
    case False
    with that have "z < 1" by simp
    with that(1) show ?thesis by (rule f32_error_unit)
  qed
  show ?thesis
  proof (cases "0 \<le> x")
    case True
    then show ?thesis using assms by (intro pos) simp_all
  next
    case False
    then have "\<bar>f32 (- x) - (- x)\<bar> \<le> 1 / 2 ^ 25" using assms by (intro pos) simp_all
    then show ?thesis unfolding f32_minus by linarith
  qed
qed

section \<open>Properties of the generator\<close>

lemma c23: "(0x7FFFFF :: 32 word) = mask 23" by (simp add: mask_eq_exp_minus_1)
lemma c8: "(0xFF :: 32 word) = mask 8" by (simp add: mask_eq_exp_minus_1)
lemma a_sign_gen:
  "k < 31 \<Longrightarrow> \<not> bit (((s :: 32 word) AND mask 23) OR 2 ^ k) 31"
  by (simp add: bit_simps)

lemma a_exp_gen:
  "23 + j = k \<Longrightarrow> j < 8 \<Longrightarrow> drop_bit 23 (((s :: 32 word) AND mask 23) OR 2 ^ k) AND mask 8 = 2 ^ j"
  by (rule bit_word_eqI) (auto simp add: bit_simps)

lemma a_man_gen:
  "23 \<le> k \<Longrightarrow> (((s :: 32 word) AND mask 23) OR 2 ^ k) AND mask 23 = s AND mask 23"
  by (rule bit_word_eqI) (auto simp add: bit_simps)

lemma a_sign: "\<not> bit (((s :: 32 word) AND 0x7FFFFF) OR 0x40000000) 31"
  using a_sign_gen [of 30 s] unfolding c23 by simp

lemma a_exp: "drop_bit 23 (((s :: 32 word) AND 0x7FFFFF) OR 0x40000000) AND 0xFF = 128"
  using a_exp_gen [of 7 30 s] unfolding c23 c8 by simp

lemma a_man: "(((s :: 32 word) AND 0x7FFFFF) OR 0x40000000) AND 0x7FFFFF = s AND 0x7FFFFF"
  using a_man_gen [of 30 s] unfolding c23 by simp

lemma man_bound: "unat ((s :: 32 word) AND 0x7FFFFF) < 2 ^ 23"
proof -
  have "uint (s AND mask 23) < 2 ^ 23" by (rule and_mask_lt_2p)
  then have "int (unat (s AND mask 23)) < int (2 ^ 23)"
    by (simp only: uint_nat [symmetric] of_nat_power of_nat_numeral)
  then have "unat (s AND mask 23) < 2 ^ 23"
    by (simp only: of_nat_less_iff)
  then show ?thesis unfolding c23 .
qed

lemma randomFloat_value:
  "fst (randomFloat s) = real (unat ((s * 521167) AND 0x7FFFFF)) / 2 ^ 23"
proof -
  define M where "M = unat ((s * 521167) AND 0x7FFFFF)"
  have M: "M < 2 ^ 23" unfolding M_def by (rule man_bound)
  have Mi: "\<bar>int M\<bar> < 2 ^ 24" using M by simp
  define a where "a = ((s * 521167) AND 0x7FFFFF) OR 0x40000000"
  have fb: "float_of_bits a = real (2 ^ 23 + M) * 2 powi (- 22)"
    unfolding a_def by (simp add: float_of_bits_def a_sign a_exp a_man M_def)
  have s1: "float_of_bits a - 2 = of_int (int M) * 2 powi (- 22)"
    unfolding fb by (simp add: power_int_minus field_simps)
  have e1: "f32 (float_of_bits a - 2) = of_int (int M) * 2 powi (- 22)"
    unfolding s1 using Mi by (rule f32_exact) simp
  have s2: "0.5 * f32 (float_of_bits a - 2) = of_int (int M) * 2 powi (- 23)"
    unfolding e1 by (simp add: power_int_minus field_simps)
  have e2: "f32 (0.5 * f32 (float_of_bits a - 2)) = of_int (int M) * 2 powi (- 23)"
    unfolding s2 using Mi by (rule f32_exact) simp
  have "fst (randomFloat s) = f32 (0.5 * f32 (float_of_bits a - 2))"
    by (simp add: randomFloat_def Let_def a_def)
  also note e2
  finally show ?thesis by (simp add: M_def power_int_minus field_simps)
qed

lemma randomFloat_range:
  "0 \<le> fst (randomFloat s) \<and> fst (randomFloat s) \<le> 1 - 1 / 2 ^ 23"
proof -
  define M where "M = unat ((s * 521167) AND 0x7FFFFF)"
  have "M < 2 ^ 23" unfolding M_def by (rule man_bound)
  then have "M + 1 \<le> 2 ^ 23" by simp
  then have "real (M + 1) \<le> real (2 ^ 23)" by (simp only: of_nat_le_iff)
  then have "real M \<le> 2 ^ 23 - 1" by simp
  then show ?thesis unfolding randomFloat_value M_def [symmetric] by (simp add: field_simps)
qed

lemma randomInt_zero: "fst (randomInt 0 seed) = 0"
  by (simp add: randomInt_def split_def Let_def f32_def float_to_int_def)

lemma randomInt_float_bound:
  assumes "0 < unat maxInt"
  shows "0 \<le> f32 (fst (randomFloat seed) * f32 (real (unat maxInt)))"
    and "f32 (fst (randomFloat seed) * f32 (real (unat maxInt))) < real (unat maxInt)"
proof -
  define B where "B = real (unat maxInt)"
  define r where "r = fst (randomFloat seed)"
  have "1 \<le> unat maxInt" using assms by simp
  then have "real 1 \<le> real (unat maxInt)" by (simp only: of_nat_le_iff)
  then have B: "1 \<le> B" unfolding B_def by (simp only: of_nat_1)
  have r: "0 \<le> r" "r \<le> 1 - 1 / 2 ^ 23" using randomFloat_range [of seed] by (simp_all add: r_def)
  have "0 \<le> ilog2 B"
  proof -
    have "ilog2 1 \<le> ilog2 B" using B by (intro ilog2_mono) simp_all
    moreover have "ilog2 1 = 0" by (rule ilog2_unique) simp_all
    ultimately show ?thesis by simp
  qed
  then have en: "- 126 \<le> ilog2 B" by simp
  have r1: "r \<le> 1 - 2 powi (1 - int 24)" using r(2) by (simp add: power_int_minus field_simps)
  show "0 \<le> f32 (fst (randomFloat seed) * f32 (real (unat maxInt)))"
    unfolding f32_def r_def [symmetric] B_def [symmetric]
    using r(1) B rnd_nonneg [of B 24 "- 126"] by (intro rnd_nonneg) simp
  show "f32 (fst (randomFloat seed) * f32 (real (unat maxInt))) < real (unat maxInt)"
    unfolding f32_def r_def [symmetric] B_def [symmetric]
    using B en r(1) r1 by (intro rnd_scale_less) simp_all
qed

lemma randomInt_less:
  assumes "0 < unat maxInt"
  shows "unat (fst (randomInt maxInt seed)) < unat maxInt"
proof -
  define v where "v = f32 (fst (randomFloat seed) * f32 (real (unat maxInt)))"
  have v: "0 \<le> v" "v < real (unat maxInt)"
    using randomInt_float_bound [OF assms, of seed] by (simp_all add: v_def)
  have t: "float_to_int v = \<lfloor>v\<rfloor>" using v(1) by (simp add: float_to_int_def)
  have f0: "0 \<le> \<lfloor>v\<rfloor>" using v(1) by simp
  have f1: "\<lfloor>v\<rfloor> < int (unat maxInt)" using v(2) by (simp add: floor_less_iff)
  have "int (unat maxInt) < 2 ^ 32" using unsigned_less [of maxInt] by simp
  then have f2: "\<lfloor>v\<rfloor> < 2 ^ 32" using f1 by linarith
  have "fst (randomInt maxInt seed) = word_of_int (float_to_int v)"
    by (simp add: randomInt_def split_def Let_def v_def)
  then have "fst (randomInt maxInt seed) = word_of_int \<lfloor>v\<rfloor>"
    by (simp only: t)
  then have "uint (fst (randomInt maxInt seed)) = \<lfloor>v\<rfloor>"
    using f0 f2 by (simp add: uint_word_of_int take_bit_int_eq_self)
  then have "int (unat (fst (randomInt maxInt seed))) = \<lfloor>v\<rfloor>" by simp
  then show ?thesis using f1 by linarith
qed

lemma unat_less_2_32: "unat (w :: 32 word) < 2 ^ 32"
proof -
  have "int (unat w) < 2 ^ 32" using unsigned_less [of w] by simp
  then have "int (unat w) < int (2 ^ 32)" by simp
  then show ?thesis by (simp only: of_nat_less_iff)
qed

lemma randomInt_value:
  "int (unat (fst (randomInt maxInt seed))) = \<lfloor>f32 (fst (randomFloat seed) * f32 (real (unat maxInt)))\<rfloor>"
proof -
  define v where "v = f32 (fst (randomFloat seed) * f32 (real (unat maxInt)))"
  have v: "0 \<le> v \<and> \<lfloor>v\<rfloor> < 2 ^ 32"
  proof (cases "unat maxInt = 0")
    case True
    then show ?thesis by (simp add: v_def)
  next
    case False
    then have pos: "0 < unat maxInt" by simp
    have a: "0 \<le> v" "v < real (unat maxInt)"
      using randomInt_float_bound [OF pos, of seed] by (simp_all add: v_def)
    have "\<lfloor>v\<rfloor> < int (unat maxInt)" using a(2) by (simp add: floor_less_iff)
    moreover have "int (unat maxInt) < 2 ^ 32" using unsigned_less [of maxInt] by simp
    ultimately have "\<lfloor>v\<rfloor> < 2 ^ 32" by linarith
    with a(1) show ?thesis by blast
  qed
  have t: "float_to_int v = \<lfloor>v\<rfloor>" using v by (simp add: float_to_int_def)
  have f0: "0 \<le> \<lfloor>v\<rfloor>" using v by simp
  have "fst (randomInt maxInt seed) = word_of_int (float_to_int v)"
    by (simp add: randomInt_def split_def Let_def v_def)
  then have "fst (randomInt maxInt seed) = word_of_int \<lfloor>v\<rfloor>"
    by (simp only: t)
  then have "uint (fst (randomInt maxInt seed)) = \<lfloor>v\<rfloor>"
    using f0 v by (simp add: uint_word_of_int take_bit_int_eq_self)
  then show ?thesis by (simp add: v_def)
qed

lemma randomFloat_0: "randomFloat 0 = (0, 0)"
proof -
  have "fst (randomFloat 0) = 0" unfolding randomFloat_value by simp
  moreover have "snd (randomFloat 0) = 0" by (simp add: randomFloat_def Let_def)
  ultimately show ?thesis by (simp add: prod_eq_iff)
qed

lemma randomInt_0_0: "randomInt 0 0 = (0, 0)"
  by (simp add: randomInt_def randomFloat_0 float_to_int_def)

section \<open>Properties of the samplers\<close>

lemma firstPoint_inRegion_aux:
  assumes "firstPoint order c seed = Some r"
  shows "inRegion c (fst r)"
proof (rule firstPoint.raw_induct [where P = "\<lambda>order c seed r. inRegion c (fst r)", OF _ assms],
    goal_cases)
  case (1 f order c seed r)
  then show ?case
    by (auto simp add: split_def Let_def split: if_splits)
qed

lemma firstPoint_inRegion:
  "firstPoint order c seed = Some (p, seed') \<Longrightarrow> inRegion c p"
  using firstPoint_inRegion_aux [of order c seed "(p, seed')"] by simp

lemma spawnPoints_count:
  "spawnPoints k p c md cs st = Inr st' \<Longrightarrow>
     length (samplePoints st') \<le> length (samplePoints st) + k"
proof (induction k arbitrary: st)
  case 0
  then show ?case by simp
next
  case (Suc k)
  then show ?case
    by (fastforce simp add: split_def Let_def split: if_splits sum.splits)
qed

lemma spawnPoints_inRegion:
  "spawnPoints k p c md cs st = Inr st' \<Longrightarrow>
     \<forall>q \<in> set (samplePoints st). inRegion c q \<Longrightarrow>
     \<forall>q \<in> set (samplePoints st'). inRegion c q"
proof (induction k arbitrary: st)
  case 0
  then show ?case by simp
next
  case (Suc k)
  show ?case
  proof (cases "inRegion c (fst (generateRandomPointAround p md (prng st))) \<and>
      IsInNeighbourhood (samplerGrid st) (fst (generateRandomPointAround p md (prng st))) md cs
        = Inr False")
    case True
    with Suc.prems(1) obtain g where
      g: "Insert (samplerGrid st) (fst (generateRandomPointAround p md (prng st))) = Inr g"
      and r: "spawnPoints k p c md cs
           \<lparr>processList = processList st @ [fst (generateRandomPointAround p md (prng st))],
            samplePoints = samplePoints st @ [fst (generateRandomPointAround p md (prng st))],
            samplerGrid = g, prng = snd (generateRandomPointAround p md (prng st))\<rparr> = Inr st'"
      by (auto simp add: split_def Let_def split: sum.splits)
    show ?thesis
      by (rule Suc.IH [OF r]) (use True Suc.prems(2) in auto)
  next
    case False
    with Suc.prems(1) have
      r: "spawnPoints k p c md cs (st\<lparr>prng := snd (generateRandomPointAround p md (prng st))\<rparr>) = Inr st'"
      by (auto simp add: split_def Let_def split: if_splits sum.splits)
    show ?thesis
      by (rule Suc.IH [OF r]) (use Suc.prems(2) in auto)
  qed
qed

lemma mainLoop_count:
  "mainLoop n k c md cs st = Inr st' \<Longrightarrow>
     length (samplePoints st) \<le> n + k \<Longrightarrow> length (samplePoints st') \<le> n + k"
proof (induction n k c md cs st rule: mainLoop.induct)
  case (1 n k c md cs st)
  show ?case
  proof (cases "processList st \<noteq> [] \<and> length (samplePoints st) \<le> n")
    case False
    with "1.prems"(1) have "st' = st" by (subst (asm) mainLoop.simps) simp
    with "1.prems"(2) show ?thesis by simp
  next
    case True
    with "1.prems"(1) obtain p rest seed' st1 where
      pop: "popRandom (processList st) (prng st) = Inr (p, rest, seed')"
      and sp: "spawnPoints k p c md cs (st\<lparr>processList := rest, prng := seed'\<rparr>) = Inr st1"
      and ml: "mainLoop n k c md cs st1 = Inr st'"
      by (subst (asm) mainLoop.simps) (auto split: sum.splits prod.splits)
    have "length (samplePoints st1) \<le> n + k"
      using spawnPoints_count [OF sp] True by simp
    with "1.IH" [OF True pop refl refl sp ml] show ?thesis by simp
  qed
qed

lemma mainLoop_inRegion:
  "mainLoop n k c md cs st = Inr st' \<Longrightarrow>
     \<forall>q \<in> set (samplePoints st). inRegion c q \<Longrightarrow>
     \<forall>q \<in> set (samplePoints st'). inRegion c q"
proof (induction n k c md cs st rule: mainLoop.induct)
  case (1 n k c md cs st)
  show ?case
  proof (cases "processList st \<noteq> [] \<and> length (samplePoints st) \<le> n")
    case False
    with "1.prems"(1) have "st' = st" by (subst (asm) mainLoop.simps) simp
    with "1.prems"(2) show ?thesis by simp
  next
    case True
    with "1.prems"(1) obtain p rest seed' st1 where
      pop: "popRandom (processList st) (prng st) = Inr (p, rest, seed')"
      and sp: "spawnPoints k p c md cs (st\<lparr>processList := rest, prng := seed'\<rparr>) = Inr st1"
      and ml: "mainLoop n k c md cs st1 = Inr st'"
      by (subst (asm) mainLoop.simps) (auto split: sum.splits prod.splits)
    have "\<forall>q \<in> set (samplePoints st1). inRegion c q"
      by (rule spawnPoints_inRegion [OF sp]) (use "1.prems"(2) in simp)
    with "1.IH" [OF True pop refl refl sp ml] show ?thesis by simp
  qed
qed

lemma generatePoissonPoints_cases:
  assumes "generatePoissonPoints order numPoints seed c k minDist = Some (Inr (pts, seed'))"
  obtains (empty) "scaledPointCount numPoints c = Inr 0" "pts = []" "seed' = seed"
  | (run) n w p0 seed0 g st where
      "scaledPointCount numPoints c = Inr n" "n \<noteq> 0"
      "poissonGridSize (poissonCellSize (effectiveMinDist n minDist)) = Inr w"
      "firstPoint order c seed = Some (p0, seed0)"
      "Insert (Grid w w (poissonCellSize (effectiveMinDist n minDist))) p0 = Inr g"
      "mainLoop (unat n) (unat k) c (effectiveMinDist n minDist)
         (poissonCellSize (effectiveMinDist n minDist))
         \<lparr>processList = [p0], samplePoints = [p0], samplerGrid = g, prng = seed0\<rparr> = Inr st"
      "pts = samplePoints st" "seed' = prng st"
  using assms unfolding generatePoissonPoints_def Let_def
  by (auto split: sum.splits option.splits if_splits)

lemma Point_sel [simp]: "px (Point X Y) = X" "py (Point X Y) = Y" "isValid (Point X Y)"
  by (simp_all add: Point_def)

lemma IsInNeighbourhood_iff:
  assumes "ImageToGrid p cellSize = Inr (gx, gy)"
  shows "IsInNeighbourhood g p minDist cellSize = Inr b \<longleftrightarrow>
     (b \<longleftrightarrow> (\<exists>i j. gx - 5 \<le> i \<and> i \<le> gx + 5 \<and> gy - 5 \<le> j \<and> j \<le> gy + 5 \<and>
            0 \<le> i \<and> i < gridW g \<and> 0 \<le> j \<and> j < gridH g \<and>
            isValid (cells g ! nat i ! nat j) \<and> GetDistance (cells g ! nat i ! nat j) p < minDist))"
  unfolding IsInNeighbourhood_def assms Let_def list_ex_iff set_upto
  by (simp only: Bex_def atLeastAtMost_iff sum.case prod.case sum.inject) blast

lemma spawnPoints_stuck:
  assumes "generateRandomPointAround p md (prng st) = (q, prng st)"
    and "\<not> inRegion c q \<or> IsInNeighbourhood (samplerGrid st) q md cs = Inr True"
  shows "spawnPoints k p c md cs st = Inr st"
  using assms by (induction k) auto

lemma jitterPoint_inRectangle_aux:
  assumes "jitterPoint X Y r c seed = Some res"
  shows "IsInRectangle (fst res)"
proof (rule jitterPoint.raw_induct [where P = "\<lambda>X Y r c seed res. IsInRectangle (fst res)", OF _ assms],
    goal_cases)
  case (1 f X Y r c seed res)
  then show ?case
    by (auto simp add: split_def Let_def split: if_splits)
qed

lemma jitterPoint_inRectangle:
  "jitterPoint X Y r c seed = Some (p, seed') \<Longrightarrow> IsInRectangle p"
  using jitterPoint_inRectangle_aux [of X Y r c seed "(p, seed')"] by simp

lemma jitterLoop_region:
  "jitterLoop cs gs isCircle r c acc seed = Some (pts, seed') \<Longrightarrow>
     \<forall>p \<in> set acc. IsInRectangle p \<and> (isCircle \<longrightarrow> IsInCircle p) \<Longrightarrow>
     \<forall>p \<in> set pts. IsInRectangle p \<and> (isCircle \<longrightarrow> IsInCircle p)"
proof (induction cs arbitrary: acc seed)
  case Nil
  then show ?case by simp
next
  case (Cons xy cs)
  obtain x y where xy: "xy = (x, y)" by (cases xy)
  from Cons.prems(1) obtain p s1 where
    jp: "jitterPoint (f32 (f32 (real x) / f32 (real (unat gs))))
           (f32 (f32 (real y) / f32 (real (unat gs)))) r c seed = Some (p, s1)"
    unfolding xy by (auto split: option.splits)
  have rect: "IsInRectangle p" using jp by (rule jitterPoint_inRectangle)
  show ?case
  proof (cases "isCircle \<and> \<not> IsInCircle p")
    case True
    with Cons.prems(1) jp have "jitterLoop cs gs isCircle r c acc s1 = Some (pts, seed')"
      unfolding xy by simp
    from Cons.IH [OF this Cons.prems(2)] show ?thesis .
  next
    case False
    with Cons.prems(1) jp have l: "jitterLoop cs gs isCircle r c (acc @ [p]) s1 = Some (pts, seed')"
      unfolding xy by auto
    show ?thesis
      by (rule Cons.IH [OF l]) (use Cons.prems(2) rect False in auto)
  qed
qed

lemma jittered_region:
  "generateJitteredGridPoints n seed isCircle r c = Some (pts, seed') \<Longrightarrow>
     \<forall>p \<in> set pts. IsInRectangle p \<and> (isCircle \<longrightarrow> IsInCircle p)"
  unfolding generateJitteredGridPoints_def Let_def
  by (erule jitterLoop_region) simp

text \<open>
  Two facts about the faults of the model. The cell index of a coordinate between 0 and
  1 is never negative and never exceeds the grid size; it is below the grid size
  unless the rounded quotient \<open>1 / cellSize\<close> is an integer. And \<open>popRandom\<close> never
  indexes outside a list that is not empty.
\<close>

lemma cell_index_bounds:
  assumes x: "0 \<le> X" "X \<le> 1" and c: "0 < cellSize"
  shows "0 \<le> float_to_int (f32 (X / cellSize))"
    and "float_to_int (f32 (X / cellSize)) \<le> \<lceil>f32 (1 / cellSize)\<rceil>"
    and "f32 (1 / cellSize) \<notin> \<int> \<Longrightarrow> float_to_int (f32 (X / cellSize)) < \<lceil>f32 (1 / cellSize)\<rceil>"
proof -
  have q0: "0 \<le> X / cellSize" using x(1) c by simp
  have q1: "X / cellSize \<le> 1 / cellSize" using x(2) c by (simp add: divide_right_mono)
  have f0: "0 \<le> f32 (X / cellSize)" using q0 by (rule f32_nonneg)
  have f1: "f32 (X / cellSize) \<le> f32 (1 / cellSize)" using q0 q1 by (rule f32_mono)
  have t: "float_to_int (f32 (X / cellSize)) = \<lfloor>f32 (X / cellSize)\<rfloor>"
    using f0 by (simp add: float_to_int_def)
  show "0 \<le> float_to_int (f32 (X / cellSize))" unfolding t using f0 by simp
  have "\<lfloor>f32 (X / cellSize)\<rfloor> \<le> \<lfloor>f32 (1 / cellSize)\<rfloor>" using f1 by (rule floor_mono)
  moreover have "\<lfloor>f32 (1 / cellSize)\<rfloor> \<le> \<lceil>f32 (1 / cellSize)\<rceil>" by (rule floor_le_ceiling)
  ultimately show "float_to_int (f32 (X / cellSize)) \<le> \<lceil>f32 (1 / cellSize)\<rceil>"
    unfolding t by linarith
  assume "f32 (1 / cellSize) \<notin> \<int>"
  then have "f32 (1 / cellSize) \<noteq> of_int \<lfloor>f32 (1 / cellSize)\<rfloor>"
    by (metis Ints_of_int)
  then have "\<lfloor>f32 (1 / cellSize)\<rfloor> < \<lceil>f32 (1 / cellSize)\<rceil>"
    by (simp add: ceiling_altdef)
  with \<open>\<lfloor>f32 (X / cellSize)\<rfloor> \<le> \<lfloor>f32 (1 / cellSize)\<rfloor>\<close>
  show "float_to_int (f32 (X / cellSize)) < \<lceil>f32 (1 / cellSize)\<rceil>"
    unfolding t by linarith
qed

lemma popRandom_returns:
  assumes "points \<noteq> []" "length points < 2 ^ 32"
  shows "\<exists>p rest seed'. popRandom points seed = Inr (p, rest, seed')"
proof -
  define z where "z = int (length points) - 1"
  define b :: "32 word" where "b = word_of_int z"
  have len: "0 < length points" using assms(1) by simp
  have ub: "unat b = length points - 1"
  proof -
    have "0 \<le> z" using len by (simp add: z_def)
    moreover have "z < 2 ^ 32" using assms(2) by (simp add: z_def)
    ultimately have "uint b = z"
      unfolding b_def by (simp add: uint_word_of_int take_bit_int_eq_self)
    then have "int (unat b) = int (length points) - 1" by (simp add: z_def)
    then show ?thesis using len by linarith
  qed
  have "unat (fst (randomInt b seed)) < length points"
  proof (cases "b = 0")
    case True
    then show ?thesis using len by (simp add: randomInt_zero)
  next
    case False
    then have "0 < unat b" by (simp add: unat_gt_0)
    from randomInt_less [OF this, of seed] ub show ?thesis by simp
  qed
  then show ?thesis
    unfolding popRandom_def split_def Let_def b_def z_def by simp
qed

subsection \<open>The internal target of the Poisson sampler\<close>

lemma Pi_4_value: "Pi_4 = 7074237752028440 / 2 ^ 53"
proof -
  have "f64 (785398163397448309616 / 10 ^ 21) = of_int 7074237752028440 * 2 powi (- 1 - 52)"
    by (rule f64_eqI) (simp_all add: power_int_minus abs_if)
  then show ?thesis by (simp add: Pi_4_def power_int_minus)
qed

lemma scaled_2: "f64 (Pi_4 * 2) = 7074237752028440 / 2 ^ 52"
proof -
  have "f64 (of_int 7074237752028440 * 2 powi (- 52)) = of_int 7074237752028440 * 2 powi (- 52)"
    by (rule f64_exact) simp_all
  then show ?thesis by (simp add: Pi_4_value power_int_minus)
qed

lemma scaled_20: "f64 (Pi_4 * 20) = 4421398595017775 / 2 ^ 48"
proof -
  have "f64 (of_int 4421398595017775 * 2 powi (- 48)) = of_int 4421398595017775 * 2 powi (- 48)"
    by (rule f64_exact) simp_all
  then show ?thesis by (simp add: Pi_4_value power_int_minus)
qed

lemma scaledPointCount_1_False: "scaledPointCount 1 False = Inr 1"
  by (simp add: scaledPointCount_def scaled_2 float_to_int_def)

lemma scaledPointCount_10_False: "scaledPointCount 10 False = Inr 15"
  by (simp add: scaledPointCount_def scaled_20 float_to_int_def)

subsection \<open>Bit reversal and the Hammersley points\<close>

text \<open>
  The five shift-and-mask steps of \<open>radicalInverse_VdC\<close> reverse the 32 bits of their
  argument; the decimal literal of the source is the double \<open>1 / 2 ^ 32\<close>, so that the
  scaling is exact and the only rounding is the conversion of the reversed integer to
  single precision.
\<close>

lemma bit_times2: "bit ((a::32 word) * 2) n \<longleftrightarrow> 0 < n \<and> n < 32 \<and> bit a (n - 1)"
  using bit_double_iff [of a n] by (auto simp add: mult.commute)

lemma bit_beyond: "32 \<le> n \<Longrightarrow> bit (w :: 32 word) n = False"
  using bit_imp_le_length [of w n] by auto

lemma below_32_cases:
  assumes "n < (32::nat)"
  shows "n \<in> {0, 1, 2, 3, 4, 5, 6, 7, 8, 9, 10, 11, 12, 13, 14, 15, 16, 17, 18, 19, 20, 21,
     22, 23, 24, 25, 26, 27, 28, 29, 30, 31}"
  using assms by (simp only: insert_iff empty_iff) presburger

lemma reverseBits_bit:
  assumes "n < 32"
  shows "bit (reverseBits w) n = bit w (31 - n)"
  using below_32_cases [OF assms] unfolding reverseBits_def Let_def
  by (elim insertE emptyE) (simp_all add: bit_simps bit_times2 bit_beyond)

lemma reverseBits_eq: "reverseBits w = word_reverse w"
  by (rule bit_word_eqI) (simp add: reverseBits_bit bit_word_reverse_iff)

lemma scale_literal: "f64 (23283064365386963 / 10 ^ 26) = 1 / 2 ^ 32"
proof -
  have "f64 (23283064365386963 / 10 ^ 26) = of_int (2 ^ 52) * 2 powi (- 32 - 52)"
    by (rule f64_eqI) (simp_all add: power_int_minus abs_if)
  then show ?thesis by (simp add: power_int_minus)
qed

lemma scaled_exact:
  assumes "1 \<le> a"
  shows "f32 (f64 (f32 a * (1 / 2 ^ 32))) = f32 a / 2 ^ 32"
proof -
  have a: "0 < a" using assms by simp
  have il: "0 \<le> ilog2 a" using assms by (rule ilog2_ge_0)
  have p: "(1::real) / 2 ^ 32 = 2 powi (- 32)" by (simp add: power_int_minus)
  have A: "f64 (f32 a * 2 powi (- 32)) = f32 a * 2 powi (- 32)"
    unfolding f64_def f32_def by (rule rnd_rnd_scaled) (use a il in simp_all)
  have B: "f32 (f32 a * 2 powi (- 32)) = f32 a * 2 powi (- 32)"
    unfolding f32_def by (rule rnd_rnd_scaled) (use a il in simp_all)
  have "f32 (f64 (f32 a * 2 powi (- 32))) = f32 a * 2 powi (- 32)"
    by (simp only: A B)
  then show ?thesis unfolding p [symmetric] by simp
qed

lemma radicalInverse_value:
  "radicalInverse_VdC i = f32 (real (unat (word_reverse i))) / 2 ^ 32"
proof (cases "unat (word_reverse i) = 0")
  case True
  then show ?thesis by (simp add: radicalInverse_VdC_def reverseBits_eq)
next
  case False
  then have "1 \<le> unat (word_reverse i)" by simp
  then have "real 1 \<le> real (unat (word_reverse i))" by (simp only: of_nat_le_iff)
  then have "1 \<le> real (unat (word_reverse i))" by (simp only: of_nat_1)
  from scaled_exact [OF this] show ?thesis
    unfolding radicalInverse_VdC_def reverseBits_eq scale_literal .
qed

lemma radicalInverse_range: "0 \<le> radicalInverse_VdC i \<and> radicalInverse_VdC i \<le> 1"
proof -
  define R where "R = real (unat (word_reverse i))"
  have R0: "0 \<le> R" unfolding R_def by (rule of_nat_0_le_iff)
  have "unat (word_reverse i) < 2 ^ 32" using unat_less_2_32 [of "word_reverse i"] by simp
  then have "real (unat (word_reverse i)) < real (2 ^ 32)" by (simp only: of_nat_less_iff)
  then have R1: "R \<le> 2 ^ 32" unfolding R_def by simp
  have "f32 R \<le> f32 (2 ^ 32)" using R0 R1 by (rule f32_mono)
  then have "f32 R \<le> 2 ^ 32" by (simp only: f32_2_32)
  moreover have "0 \<le> f32 R" using R0 by (rule f32_nonneg)
  ultimately show ?thesis unfolding radicalInverse_value R_def [symmetric]
    by (simp add: field_simps)
qed

lemma hammersley_x_range:
  assumes "unat i < unat N"
  shows "0 \<le> f32 (f32 (real (unat i)) / f32 (real (unat N)))"
    and "f32 (f32 (real (unat i)) / f32 (real (unat N))) \<le> 1"
proof -
  define a where "a = real (unat i)"
  define b where "b = real (unat N)"
  have "unat i \<le> unat N" "1 \<le> unat N" using assms by simp_all
  then have "real (unat i) \<le> real (unat N)" "real 1 \<le> real (unat N)"
    by (simp_all only: of_nat_le_iff)
  then have ab: "a \<le> b" and b1: "1 \<le> b" by (simp_all add: a_def b_def)
  have a0: "0 \<le> a" unfolding a_def by (rule of_nat_0_le_iff)
  have fa: "0 \<le> f32 a" using a0 by (rule f32_nonneg)
  have fab: "f32 a \<le> f32 b" using a0 ab by (rule f32_mono)
  have "f32 1 \<le> f32 b" using b1 by (intro f32_mono) simp_all
  then have fb: "1 \<le> f32 b" by simp
  have q0: "0 \<le> f32 a / f32 b" using fa fb by simp
  have q1: "f32 a / f32 b \<le> 1" using fab fb by (simp add: field_simps)
  show "0 \<le> f32 (f32 (real (unat i)) / f32 (real (unat N)))"
    unfolding a_def [symmetric] b_def [symmetric] using q0 by (rule f32_nonneg)
  have "f32 (f32 a / f32 b) \<le> f32 1" using q0 q1 by (rule f32_mono)
  then show "f32 (f32 (real (unat i)) / f32 (real (unat N))) \<le> 1"
    unfolding a_def [symmetric] b_def [symmetric] by simp
qed

lemma hammersley_inRectangle:
  assumes "p \<in> set (generateHammersleyPoints numPoints)"
  shows "IsInRectangle p"
proof -
  from assms obtain k where k: "k < unat numPoints" and p: "p = hammersley2d (of_nat k) numPoints"
    by (auto simp add: generateHammersleyPoints_def)
  have "k < 2 ^ 32" using k unat_less_2_32 [of numPoints] by simp
  then have uk: "unat (of_nat k :: 32 word) = k" by (simp add: unat_of_nat)
  have lt: "unat (of_nat k :: 32 word) < unat numPoints" using k uk by simp
  show ?thesis
    unfolding p hammersley2d_def IsInRectangle_def
    using hammersley_x_range [OF lt] radicalInverse_range [of "of_nat k"] by simp
qed

lemma hammersley_nth:
  assumes "k < unat n"
  shows "generateHammersleyPoints n ! k = hammersley2d (of_nat k) n"
    and "unat (of_nat k :: 32 word) = k"
proof -
  show "generateHammersleyPoints n ! k = hammersley2d (of_nat k) n"
    using assms by (simp add: generateHammersleyPoints_def)
  have "k < 2 ^ 32" using assms unat_less_2_32 [of n] by simp
  then show "unat (of_nat k :: 32 word) = k" by (simp add: unat_of_nat)
qed

lemma hammersley_y_error:
  "\<bar>radicalInverse_VdC i - real (unat (word_reverse i)) / 2 ^ 32\<bar> \<le> 1 / 2 ^ 25"
proof -
  define R where "R = real (unat (word_reverse i))"
  have R0: "0 \<le> R" unfolding R_def by (rule of_nat_0_le_iff)
  have "unat (word_reverse i) < 2 ^ 32" by (rule unat_less_2_32)
  then have "real (unat (word_reverse i)) < real (2 ^ 32)" by (simp only: of_nat_less_iff)
  then have R1: "R < 2 ^ 32" unfolding R_def by simp
  have "\<bar>f32 R - R\<bar> \<le> 2 ^ 7" using R0 R1 by (rule f32_error_u32)
  then have "\<bar>f32 R - R\<bar> / 2 ^ 32 \<le> 2 ^ 7 / 2 ^ 32" by (simp add: divide_right_mono)
  moreover have "\<bar>f32 R / 2 ^ 32 - R / 2 ^ 32\<bar> = \<bar>f32 R - R\<bar> / 2 ^ 32"
    by (simp add: abs_if field_simps)
  ultimately show ?thesis unfolding radicalInverse_value R_def [symmetric] by simp
qed

lemma hammersley_x_error:
  assumes "k < unat n" "unat n \<le> 2 ^ 24"
  shows "\<bar>f32 (f32 (real k) / f32 (real (unat n))) - real k / real (unat n)\<bar> \<le> 1 / 2 ^ 25"
proof -
  have k: "f32 (real k) = real k" using assms by (intro f32_of_nat_small) simp
  have n: "f32 (real (unat n)) = real (unat n)" using assms by (intro f32_of_nat_small) simp
  have "real k < real (unat n)" using assms(1) by (simp only: of_nat_less_iff)
  moreover have "0 \<le> real k" by (rule of_nat_0_le_iff)
  ultimately have q: "0 \<le> real k / real (unat n)" "real k / real (unat n) < 1"
    by simp_all
  show ?thesis unfolding k n using q by (rule f32_error_unit)
qed

lemma reverse_small:
  "reverseBits 0 = 0" "reverseBits 1 = 2147483648" "reverseBits 2 = 1073741824"
  "reverseBits 3 = 3221225472"
  by (simp_all add: reverseBits_def)

lemma radicalInverse_small:
  "radicalInverse_VdC 0 = 0" "radicalInverse_VdC 1 = 1 / 2" "radicalInverse_VdC 2 = 1 / 4"
  "radicalInverse_VdC 3 = 3 / 4"
  unfolding radicalInverse_value reverseBits_eq [symmetric] reverse_small
  by (simp_all add: f32_2_31 f32_2_30 f32_3_2_30)

lemma hammersley_4:
  "map (\<lambda>p. (px p, py p)) (generateHammersleyPoints 4) = [(0, 0), (1 / 4, 1 / 2), (1 / 2, 1 / 4), (3 / 4, 3 / 4)]"
proof -
  have "unat (4 :: 32 word) = Suc (Suc (Suc (Suc 0)))" by simp
  then have u: "[0 ..< unat (4 :: 32 word)] = [0, 1, 2, 3]"
    by (simp add: numeral_3_eq_3 numeral_2_eq_2)
  show ?thesis
    unfolding generateHammersleyPoints_def u
    by (simp add: hammersley2d_def radicalInverse_small)
qed

text \<open>
  The reversal of \<open>2 ^ 25 - 1\<close> lies half way between two single-precision numbers and
  is rounded up to \<open>2 ^ 32\<close>.
\<close>

lemma f32_tie_below_2_32: "f32 4294967168 = 4294967296"
proof -
  have il: "ilog2 4294967168 = 31"
    by (rule ilog2_unique) simp_all
  have f: "\<lfloor>(33554431 :: real) / 2\<rfloor> = 16777215"
    by (simp add: floor_eq_iff)
  show ?thesis
    by (simp add: f32_def rnd_def ulp_def il round_even_def Let_def f)
qed

lemma radicalInverse_rounds_to_one: "radicalInverse_VdC 33554431 = 1"
proof -
  have "reverseBits 33554431 = 4294967168" by (simp add: reverseBits_def)
  then show ?thesis
    unfolding radicalInverse_value reverseBits_eq [symmetric]
    by (simp add: f32_tie_below_2_32)
qed

subsection \<open>The Vogel points in circle mode\<close>

text \<open>
  With \<open>isCircle\<close> set and a count below \<open>2 ^ 30\<close> the sample count \<open>4 * numPoints\<close> does
  not wrap around, and the radius of every sample is at most one half: the rounded
  root of \<open>i + 0.5\<close> does not exceed the rounded root of the count, which is half the
  rounded root of the sample count. The rounded cosine and sine are at most 1 in absolute
  value, so that around the centre \<open>(0.5, 0.5)\<close> both coordinates lie between 0 and 1; and
  the three roundings on the way from the exact point at that radius and angle move each
  coordinate by less than \<open>1 / 2 ^ 23\<close>. For the count \<open>2 ^ 30\<close> the sample count is 0.
\<close>

lemma vogel_numerator:
  assumes "i < N"
  shows "f32 (f32 (real i) + 1 / 2) \<le> f32 (real N)"
proof (cases "i < 2 ^ 24")
  case True
  define M where "M = min N (2 ^ 24)"
  have u: "f32 (real i) = real i" using True by (simp add: f32_of_nat_small)
  have "i + 1 \<le> M" using assms True by (simp add: M_def)
  then have "real (i + 1) \<le> real M" by (rule of_nat_mono)
  then have "real i + 1 \<le> real M" by simp
  then have a: "real i + 1 / 2 \<le> real M" by simp
  have "f32 (real i + 1 / 2) \<le> f32 (real M)"
    by (rule f32_mono) (use a in simp_all)
  also have "f32 (real M) \<le> f32 (real N)"
    by (rule f32_mono) (simp_all add: M_def)
  finally show ?thesis unfolding u .
next
  case False
  then have "(2::nat) ^ 24 \<le> i" by simp
  then have "real (2 ^ 24) \<le> real i" by (rule of_nat_mono)
  then have "(2::real) ^ 24 \<le> real i" by simp
  then have "f32 (f32 (real i) + 1 / 2) = f32 (real i)" by (rule f32_absorb_half)
  also have "f32 (real i) \<le> f32 (real N)"
    by (rule f32_mono) (use assms in simp_all)
  finally show ?thesis .
qed

lemma vogel_radius:
  assumes "i < N"
  shows "0 \<le> f32 (f32 (sqrt (f32 (f32 (real i) + 1 / 2))) / f32 (sqrt (f32 (real (4 * N)))))"
    and "f32 (f32 (sqrt (f32 (f32 (real i) + 1 / 2))) / f32 (sqrt (f32 (real (4 * N))))) \<le> 1 / 2"
    and "f32 (sqrt (f32 (real (4 * N)))) \<noteq> 0"
proof -
  define A where "A = f32 (f32 (real i) + 1 / 2)"
  define B where "B = f32 (real N)"
  define a where "a = f32 (sqrt A)"
  define b where "b = f32 (sqrt B)"
  have N1: "1 \<le> real N" using assms by simp
  have B1: "1 \<le> B" unfolding B_def using N1 by (rule f32_ge_1)
  have A0: "0 \<le> A" unfolding A_def
    by (rule f32_nonneg) (simp add: f32_nonneg add_nonneg_nonneg)
  have AB: "A \<le> B" unfolding A_def B_def using assms by (rule vogel_numerator)
  have sB: "1 \<le> sqrt B" using B1 by simp
  have b1: "1 \<le> b" unfolding b_def using sB by (rule f32_ge_1)
  have a0: "0 \<le> a" unfolding a_def by (rule f32_nonneg) (use A0 in simp)
  have ab: "a \<le> b" unfolding a_def b_def
    by (rule f32_mono) (use A0 AB in simp_all)
  have four: "f32 (real (4 * N)) = 4 * B"
    unfolding B_def using f32_times_4 [OF N1] by simp
  have "sqrt (4 * B) = 2 * sqrt B"
    using real_sqrt_mult [of 4 B] real_sqrt_abs [of 2] by simp
  then have den: "f32 (sqrt (f32 (real (4 * N)))) = 2 * b"
    unfolding four b_def using f32_times_2 [OF sB] by simp
  have q0: "0 \<le> a / (2 * b)" using a0 b1 by simp
  have q1: "a / (2 * b) \<le> 1 / 2" using ab b1 by (simp add: field_simps)
  have r: "f32 (f32 (sqrt (f32 (f32 (real i) + 1 / 2))) / f32 (sqrt (f32 (real (4 * N)))))
      = f32 (a / (2 * b))"
    unfolding den a_def A_def ..
  show "0 \<le> f32 (f32 (sqrt (f32 (f32 (real i) + 1 / 2))) / f32 (sqrt (f32 (real (4 * N)))))"
    unfolding r using q0 by (rule f32_nonneg)
  have "f32 (a / (2 * b)) \<le> f32 (1 / 2)" using q0 q1 by (rule f32_mono)
  then show "f32 (f32 (sqrt (f32 (f32 (real i) + 1 / 2))) / f32 (sqrt (f32 (real (4 * N))))) \<le> 1 / 2"
    unfolding r by simp
  show "f32 (sqrt (f32 (real (4 * N)))) \<noteq> 0" unfolding den using b1 by simp
qed

lemma vogel_coordinate:
  assumes r: "0 \<le> r" "r \<le> 1 / 2" and c: "\<bar>c\<bar> \<le> 1"
  shows "0 \<le> f32 (f32 (r * f32 c) + 1 / 2)"
    and "f32 (f32 (r * f32 c) + 1 / 2) \<le> 1"
    and "\<bar>f32 (f32 (r * f32 c) + 1 / 2) - 1 / 2 - r * c\<bar> \<le> 1 / 2 ^ 23"
proof -
  define C where "C = f32 c"
  define X where "X = f32 (r * C)"
  define P where "P = f32 (X + 1 / 2)"
  have C1: "\<bar>C\<bar> \<le> 1" unfolding C_def using f32_abs_le [OF c] by simp
  have Ce: "\<bar>C - c\<bar> \<le> 1 / 2 ^ 25" unfolding C_def using c by (rule f32_error_abs_unit)
  have "\<bar>r * C\<bar> = r * \<bar>C\<bar>" using r(1) by (simp add: abs_mult)
  also have "\<dots> \<le> (1 / 2) * 1"
    by (rule mult_mono) (use r C1 in simp_all)
  finally have rC: "\<bar>r * C\<bar> \<le> 1 / 2" by simp
  have X1: "\<bar>X\<bar> \<le> 1 / 2" unfolding X_def using f32_abs_le [OF rC] by simp
  have Xe: "\<bar>X - r * C\<bar> \<le> 1 / 2 ^ 25"
    unfolding X_def by (rule f32_error_abs_unit) (use rC in simp)
  have s0: "0 \<le> X + 1 / 2" and s1: "X + 1 / 2 \<le> 1" using X1 by (simp_all add: abs_le_iff)
  show "0 \<le> f32 (f32 (r * f32 c) + 1 / 2)"
    unfolding C_def [symmetric] X_def [symmetric] using s0 by (rule f32_nonneg)
  have "f32 (X + 1 / 2) \<le> f32 1" using s0 s1 by (rule f32_mono)
  then show "f32 (f32 (r * f32 c) + 1 / 2) \<le> 1"
    unfolding C_def [symmetric] X_def [symmetric] by simp
  have Pe: "\<bar>P - (X + 1 / 2)\<bar> \<le> 1 / 2 ^ 25"
    unfolding P_def by (rule f32_error_abs_unit) (use s0 s1 in simp)
  have "\<bar>r * C - r * c\<bar> = r * \<bar>C - c\<bar>"
    using r(1) by (simp add: abs_mult right_diff_distrib [symmetric])
  also have "\<dots> \<le> (1 / 2) * (1 / 2 ^ 25)"
    by (rule mult_mono) (use r Ce in simp_all)
  finally have re: "\<bar>r * C - r * c\<bar> \<le> 1 / 2 ^ 25" by simp
  have e: "(1::real) / 2 ^ 25 = 1 / 33554432" "(1::real) / 2 ^ 23 = 1 / 8388608" by simp_all
  have "\<bar>P - 1 / 2 - r * c\<bar> \<le> 1 / 2 ^ 23"
    using Pe Xe re unfolding e by linarith
  then show "\<bar>f32 (f32 (r * f32 c) + 1 / 2) - 1 / 2 - r * c\<bar> \<le> 1 / 2 ^ 23"
    unfolding P_def X_def C_def .
qed

lemma vogel_distance:
  assumes r: "0 \<le> r" "r \<le> 1 / 2"
    and x: "\<bar>dx - r * cos t\<bar> \<le> 1 / 2 ^ 23" and y: "\<bar>dy - r * sin t\<bar> \<le> 1 / 2 ^ 23"
  shows "sqrt (dx\<^sup>2 + dy\<^sup>2) \<le> 1 / 2 + 1 / 10 ^ 5"
proof -
  define ex where "ex = dx - r * cos t"
  define ey where "ey = dy - r * sin t"
  have d: "dx = r * cos t + ex" "dy = r * sin t + ey" by (simp_all add: ex_def ey_def)
  have "sqrt ((r * cos t + ex)\<^sup>2 + (r * sin t + ey)\<^sup>2)
      \<le> sqrt ((r * cos t)\<^sup>2 + (r * sin t)\<^sup>2) + sqrt (ex\<^sup>2 + ey\<^sup>2)"
    by (rule real_sqrt_sum_squares_triangle_ineq)
  moreover have "sqrt ((r * cos t)\<^sup>2 + (r * sin t)\<^sup>2) = r"
  proof -
    have "(r * cos t)\<^sup>2 + (r * sin t)\<^sup>2 = r\<^sup>2 * ((cos t)\<^sup>2 + (sin t)\<^sup>2)"
      by (simp only: power_mult_distrib distrib_left)
    also have "\<dots> = r\<^sup>2" by (simp only: sin_cos_squared_add2 mult_1_right)
    finally show ?thesis using r(1) by simp
  qed
  moreover have "sqrt (ex\<^sup>2 + ey\<^sup>2) \<le> \<bar>ex\<bar> + \<bar>ey\<bar>"
    by (rule sqrt_sum_squares_le_sum_abs)
  moreover have "\<bar>ex\<bar> \<le> 1 / 2 ^ 23" "\<bar>ey\<bar> \<le> 1 / 2 ^ 23"
    using x y by (simp_all add: ex_def ey_def)
  ultimately have "sqrt (dx\<^sup>2 + dy\<^sup>2) \<le> r + (1 / 2 ^ 23 + 1 / 2 ^ 23)"
    unfolding d by linarith
  also have "\<dots> \<le> 1 / 2 + 1 / 10 ^ 5" using r(2) by simp
  finally show ?thesis .
qed

lemma vogelLoop_all:
  assumes "\<forall>i \<in> set is. \<exists>p. sampleVogelDisk (of_nat i) ns phi = Inr p \<and> Q (point_add p c)"
    and "\<forall>q \<in> set acc. Q q"
  shows "\<exists>pts. vogelLoop is ns phi c acc = Inr pts \<and> length pts = length acc + length is \<and>
           (\<forall>q \<in> set pts. Q q)"
  using assms
proof (induction "is" arbitrary: acc)
  case Nil
  then show ?case by simp
next
  case (Cons i "is")
  from Cons.prems(1) obtain p where p: "sampleVogelDisk (of_nat i) ns phi = Inr p"
    and q: "Q (point_add p c)" by auto
  have "\<exists>pts. vogelLoop is ns phi c (acc @ [point_add p c]) = Inr pts \<and>
      length pts = length (acc @ [point_add p c]) + length is \<and> (\<forall>q \<in> set pts. Q q)"
    by (rule Cons.IH) (use Cons.prems q in auto)
  then show ?case by (simp add: p)
qed

lemma sampleVogelDisk_circle:
  assumes i: "i < unat n" and n: "unat n < 2 ^ 30"
  shows "\<exists>p. sampleVogelDisk (of_nat i) (4 * n) phi = Inr p \<and>
           IsInRectangle (point_add p (Point (1 / 2) (1 / 2))) \<and>
           sqrt ((px (point_add p (Point (1 / 2) (1 / 2))) - 1 / 2)\<^sup>2
               + (py (point_add p (Point (1 / 2) (1 / 2))) - 1 / 2)\<^sup>2) \<le> 1 / 2 + 1 / 10 ^ 5"
proof -
  define N where "N = unat n"
  define r where "r = f32 (f32 (sqrt (f32 (f32 (real i) + 1 / 2))) / f32 (sqrt (f32 (real (4 * N)))))"
  define t where "t = f32 (f32 (f32 (real i) * f32 (24 / 10)) + phi)"
  define X where "X = f32 (r * f32 (cos t))"
  define Y where "Y = f32 (r * f32 (sin t))"
  have iN: "i < N" using i by (simp add: N_def)
  have ui: "unat (of_nat i :: 32 word) = i"
    using i n by (simp add: unat_of_nat)
  have u4: "unat (4 * n) = 4 * N"
  proof -
    have "unat (4 * n) = (unat (4 :: 32 word) * unat n) mod 2 ^ 32"
      by (simp add: unat_word_ariths)
    also have "\<dots> = 4 * N" using n by (simp add: N_def)
    finally show ?thesis .
  qed
  note rad = vogel_radius [OF iN]
  have r0: "0 \<le> r" and r1: "r \<le> 1 / 2" using rad(1,2) by (simp_all add: r_def)
  have s: "sampleVogelDisk (of_nat i) (4 * n) phi = Inr (Point X Y)"
    unfolding sampleVogelDisk_def Let_def ui u4 using rad(3)
    by (simp add: X_def Y_def r_def t_def)
  have c: "\<bar>cos t\<bar> \<le> 1" "\<bar>sin t\<bar> \<le> 1" by simp_all
  note cx = vogel_coordinate [OF r0 r1 c(1)]
  note cy = vogel_coordinate [OF r0 r1 c(2)]
  have pa: "px (point_add (Point X Y) (Point (1 / 2) (1 / 2))) = f32 (X + 1 / 2)"
    "py (point_add (Point X Y) (Point (1 / 2) (1 / 2))) = f32 (Y + 1 / 2)"
    by (simp_all add: point_add_def Point_def)
  have b: "0 \<le> f32 (X + 1 / 2)" "f32 (X + 1 / 2) \<le> 1" "0 \<le> f32 (Y + 1 / 2)" "f32 (Y + 1 / 2) \<le> 1"
    using cx(1,2) cy(1,2) by (simp_all add: X_def Y_def)
  have rect: "IsInRectangle (point_add (Point X Y) (Point (1 / 2) (1 / 2)))"
    unfolding IsInRectangle_def pa using b by simp
  have dist: "sqrt ((f32 (X + 1 / 2) - 1 / 2)\<^sup>2 + (f32 (Y + 1 / 2) - 1 / 2)\<^sup>2) \<le> 1 / 2 + 1 / 10 ^ 5"
    by (rule vogel_distance [OF r0 r1, of _ t]) (use cx(3) cy(3) in \<open>simp_all add: X_def Y_def\<close>)
  show ?thesis
    using s rect dist unfolding pa [symmetric] by blast
qed

lemma vogel_circle_points:
  assumes n: "unat n < 2 ^ 30"
  shows "\<exists>pts. generateVogelPoints n True angle (Point (1 / 2) (1 / 2)) = Inr pts \<and>
           length pts = unat n \<and>
           (\<forall>p \<in> set pts. IsInRectangle p \<and>
              sqrt ((px p - 1 / 2)\<^sup>2 + (py p - 1 / 2)\<^sup>2) \<le> 1 / 2 + 1 / 10 ^ 5)"
proof -
  have "\<exists>pts. vogelLoop [0 ..< unat n] (4 * n) (f32 (f32 (angle * f32 (3141592653 / 10 ^ 9)) / 180))
            (Point (1 / 2) (1 / 2)) [] = Inr pts \<and>
          length pts = length ([] :: point list) + length [0 ..< unat n] \<and>
          (\<forall>p \<in> set pts. IsInRectangle p \<and>
              sqrt ((px p - 1 / 2)\<^sup>2 + (py p - 1 / 2)\<^sup>2) \<le> 1 / 2 + 1 / 10 ^ 5)"
  proof (rule vogelLoop_all)
    show "\<forall>i \<in> set [0 ..< unat n].
        \<exists>p. sampleVogelDisk (of_nat i) (4 * n) (f32 (f32 (angle * f32 (3141592653 / 10 ^ 9)) / 180)) = Inr p \<and>
          (IsInRectangle (point_add p (Point (1 / 2) (1 / 2))) \<and>
           sqrt ((px (point_add p (Point (1 / 2) (1 / 2))) - 1 / 2)\<^sup>2
               + (py (point_add p (Point (1 / 2) (1 / 2))) - 1 / 2)\<^sup>2) \<le> 1 / 2 + 1 / 10 ^ 5)"
      using sampleVogelDisk_circle [OF _ n] by simp
  qed simp
  then show ?thesis by (simp add: generateVogelPoints_def)
qed

lemma vogel_zero_samples:
  "generateVogelPoints 1073741824 True angle center = Inl FloatNotFinite"
proof -
  have u: "unat (1073741824 :: 32 word) = Suc 1073741823" by simp
  have z: "4 * (1073741824 :: 32 word) = 0" by simp
  show ?thesis
    unfolding generateVogelPoints_def Let_def z u upt_conv_Cons [OF zero_less_Suc]
    by (simp add: sampleVogelDisk_def)
qed

section \<open>Runs on concrete inputs\<close>

text \<open>
  A generator seeded with 0 stays at 0 and returns 0 from every call, so that every
  random point is generated at angle 0; the samplers can then be run by hand. With a
  request for one point in the square the Poisson sampler has the target 1, the minimum
  distance 1 and a grid of 2 by 2 cells; \<open>grid_a\<close> and \<open>grid_b\<close> are the grid after the
  first and after the second insertion.
\<close>

lemma firstPoint_square_0: "firstPoint order False 0 = Some (Point 0 0, 0)"
  by (subst firstPoint.simps)
     (simp add: randomFloat_0 inRegion_def IsInRectangle_def Point_def split: evalOrder.split)

lemma around_seed_0:
  "generateRandomPointAround p minDist 0
     = (Point (f32 (px p + f32 (f32 minDist * 1))) (f32 (py p)), 0)"
  by (simp add: generateRandomPointAround_def randomFloat_0)

lemma cell1_bounds: "5 / 8 \<le> poissonCellSize 1" "poissonCellSize 1 \<le> 7 / 8"
proof -
  define s where "s = f32 (sqrt 2)"
  have s: "5 / 4 \<le> s" "s \<le> 3 / 2" using f32_sqrt2_bounds by (simp_all add: s_def)
  have a: "5 / 8 \<le> 1 / s" using s by (simp add: field_simps)
  have b: "1 / s \<le> 7 / 8" using s by (simp add: field_simps)
  have "of_int 5 * 2 powi (- 3) \<le> f32 (1 / s)"
    by (rule f32_ge) (use a in \<open>simp_all add: power_int_minus\<close>)
  then show "5 / 8 \<le> poissonCellSize 1" by (simp add: poissonCellSize_def s_def power_int_minus)
  have "f32 (1 / s) \<le> of_int 7 * 2 powi (- 3)"
  proof (rule f32_le)
    show "0 \<le> 1 / s" using s by simp
  qed (use b in \<open>simp_all add: power_int_minus\<close>)
  then show "poissonCellSize 1 \<le> 7 / 8" by (simp add: poissonCellSize_def s_def power_int_minus)
qed

lemma inv_cell1_bounds:
  "9 / 8 \<le> f32 (1 / poissonCellSize 1)" "f32 (1 / poissonCellSize 1) \<le> 7 / 4"
proof -
  define c where "c = poissonCellSize 1"
  have c: "5 / 8 \<le> c" "c \<le> 7 / 8" using cell1_bounds by (simp_all add: c_def)
  have a: "9 / 8 \<le> 1 / c" using c by (simp add: field_simps)
  have b: "1 / c \<le> 7 / 4" using c by (simp add: field_simps)
  have "of_int 9 * 2 powi (- 3) \<le> f32 (1 / c)"
    by (rule f32_ge) (use a in \<open>simp_all add: power_int_minus\<close>)
  then show "9 / 8 \<le> f32 (1 / poissonCellSize 1)" by (simp add: c_def power_int_minus)
  have "f32 (1 / c) \<le> of_int 7 * 2 powi (- 2)"
  proof (rule f32_le)
    show "0 \<le> 1 / c" using c by simp
  qed (use b in \<open>simp_all add: power_int_minus\<close>)
  then show "f32 (1 / poissonCellSize 1) \<le> 7 / 4" by (simp add: c_def power_int_minus)
qed

lemma cell1_index: "float_to_int (f32 (1 / poissonCellSize 1)) = 1"
  using inv_cell1_bounds by (simp add: float_to_int_def floor_eq_iff)

lemma cell1_gridSize: "poissonGridSize (poissonCellSize 1) = Inr 2"
proof -
  have "\<lceil>f32 (1 / poissonCellSize 1)\<rceil> = 2"
    using inv_cell1_bounds by (simp add: ceiling_eq_iff)
  moreover have "poissonCellSize 1 \<noteq> 0" using cell1_bounds by auto
  ultimately show ?thesis by (simp add: poissonGridSize_def)
qed

lemma effectiveMinDist_1: "effectiveMinDist 1 (- 1) = 1"
  by (simp add: effectiveMinDist_def)

definition grid_a :: grid where
  "grid_a = \<lparr>gridW = 2, gridH = 2, gridCellSize = poissonCellSize 1,
             cells = [[Point 0 0, noPoint], [noPoint, noPoint]]\<rparr>"

definition grid_b :: grid where
  "grid_b = \<lparr>gridW = 2, gridH = 2, gridCellSize = poissonCellSize 1,
             cells = [[Point 0 0, noPoint], [Point 1 0, noPoint]]\<rparr>"

lemma cell_of_origin: "c \<noteq> 0 \<Longrightarrow> ImageToGrid (Point 0 0) c = Inr (0, 0)"
  by (simp add: ImageToGrid_def Point_def float_to_int_def castable_def)

lemma cell_of_1_0: "ImageToGrid (Point 1 0) (poissonCellSize 1) = Inr (1, 0)"
proof -
  have "poissonCellSize 1 \<noteq> 0" using cell1_bounds by auto
  moreover have "castable (f32 (1 / poissonCellSize 1))"
    using inv_cell1_bounds by (simp add: castable_def)
  moreover have "castable 0" by (simp add: castable_def)
  ultimately show ?thesis
    by (simp add: ImageToGrid_def Point_def cell1_index) (simp add: float_to_int_def)
qed

lemma insert_origin: "Insert (Grid 2 2 (poissonCellSize 1)) (Point 0 0) = Inr grid_a"
proof -
  have "poissonCellSize 1 \<noteq> 0" using cell1_bounds by auto
  then show ?thesis
    by (simp add: Insert_def Grid_def cell_of_origin grid_a_def numeral_2_eq_2)
qed

lemma insert_1_0: "Insert grid_a (Point 1 0) = Inr grid_b"
  by (simp add: Insert_def grid_a_def grid_b_def cell_of_1_0)

lemma dist_origin_1_0: "GetDistance (Point 0 0) (Point 1 0) = 1"
  by (simp add: GetDistance_def Point_def)

lemma dist_same: "GetDistance p p = 0"
  by (simp add: GetDistance_def)

lemma around_origin: "generateRandomPointAround (Point 0 0) 1 0 = (Point 1 0, 0)"
  by (simp add: around_seed_0)

lemma two_cases: "0 \<le> i \<Longrightarrow> i < 2 \<Longrightarrow> i = 0 \<or> i = (1::int)"
  by linarith

lemma not_near_a: "IsInNeighbourhood grid_a (Point 1 0) 1 (poissonCellSize 1) = Inr False"
proof -
  have "\<not> (\<exists>i j. 1 - 5 \<le> i \<and> i \<le> 1 + 5 \<and> 0 - 5 \<le> j \<and> j \<le> 0 + 5 \<and>
            0 \<le> i \<and> i < gridW grid_a \<and> 0 \<le> j \<and> j < gridH grid_a \<and>
            isValid (cells grid_a ! nat i ! nat j) \<and>
            GetDistance (cells grid_a ! nat i ! nat j) (Point 1 0) < 1)"
  proof
    assume "\<exists>i j. 1 - 5 \<le> i \<and> i \<le> 1 + 5 \<and> 0 - 5 \<le> j \<and> j \<le> 0 + 5 \<and>
            0 \<le> i \<and> i < gridW grid_a \<and> 0 \<le> j \<and> j < gridH grid_a \<and>
            isValid (cells grid_a ! nat i ! nat j) \<and>
            GetDistance (cells grid_a ! nat i ! nat j) (Point 1 0) < 1"
    then obtain i j where ij: "0 \<le> i" "i < 2" "0 \<le> j" "j < 2"
      and v: "isValid (cells grid_a ! nat i ! nat j)"
      and d: "GetDistance (cells grid_a ! nat i ! nat j) (Point 1 0) < 1"
      by (auto simp add: grid_a_def)
    from two_cases [OF ij(1,2)] two_cases [OF ij(3,4)] v d show False
      by (auto simp add: grid_a_def noPoint_def dist_origin_1_0)
  qed
  with IsInNeighbourhood_iff [OF cell_of_1_0, where g = grid_a and b = False and minDist = 1] show ?thesis by blast
qed

lemma near_b: "IsInNeighbourhood grid_b (Point 1 0) 1 (poissonCellSize 1) = Inr True"
proof -
  have "\<exists>i j. 1 - 5 \<le> i \<and> i \<le> 1 + 5 \<and> 0 - 5 \<le> j \<and> j \<le> 0 + 5 \<and>
            0 \<le> i \<and> i < gridW grid_b \<and> 0 \<le> j \<and> j < gridH grid_b \<and>
            isValid (cells grid_b ! nat i ! nat j) \<and>
            GetDistance (cells grid_b ! nat i ! nat j) (Point 1 0) < 1"
    by (rule exI [of _ 1], rule exI [of _ 0]) (simp add: grid_b_def dist_same)
  with IsInNeighbourhood_iff [OF cell_of_1_0, where g = grid_b and b = True and minDist = 1] show ?thesis by blast
qed

lemma spawn_run:
  "0 < k \<Longrightarrow> spawnPoints k (Point 0 0) False 1 (poissonCellSize 1)
     \<lparr>processList = [], samplePoints = [Point 0 0], samplerGrid = grid_a, prng = 0\<rparr>
   = Inr \<lparr>processList = [Point 1 0], samplePoints = [Point 0 0, Point 1 0],
          samplerGrid = grid_b, prng = 0\<rparr>"
proof (cases k)
  case 0
  assume "0 < k"
  with 0 show ?thesis by simp
next
  case (Suc k')
  have r: "inRegion False (Point 1 0)" by (simp add: inRegion_def IsInRectangle_def)
  have "spawnPoints k' (Point 0 0) False 1 (poissonCellSize 1)
     \<lparr>processList = [Point 1 0], samplePoints = [Point 0 0, Point 1 0],
          samplerGrid = grid_b, prng = 0\<rparr> = Inr \<lparr>processList = [Point 1 0], samplePoints = [Point 0 0, Point 1 0],
          samplerGrid = grid_b, prng = 0\<rparr>"
    by (rule spawnPoints_stuck [where q = "Point 1 0"]) (simp_all add: around_origin near_b)
  then show ?thesis
    unfolding Suc by (simp add: around_origin r not_near_a insert_1_0)
qed

lemma pop_single: "popRandom [p] 0 = Inr (p, [], 0)"
  by (simp add: popRandom_def randomInt_0_0)

lemma poisson_run_seed_0:
  "generatePoissonPoints order 1 0 False 30 (- 1) = Some (Inr ([Point 0 0, Point 1 0], 0))"
proof -
  have m1: "mainLoop (Suc 0) 30 False 1 (poissonCellSize 1)
      \<lparr>processList = [Point 1 0], samplePoints = [Point 0 0, Point 1 0],
          samplerGrid = grid_b, prng = 0\<rparr>
     = Inr \<lparr>processList = [Point 1 0], samplePoints = [Point 0 0, Point 1 0],
          samplerGrid = grid_b, prng = 0\<rparr>"
    by (subst mainLoop.simps) simp
  have m0: "mainLoop (Suc 0) 30 False 1 (poissonCellSize 1)
      \<lparr>processList = [Point 0 0], samplePoints = [Point 0 0], samplerGrid = grid_a, prng = 0\<rparr>
     = Inr \<lparr>processList = [Point 1 0], samplePoints = [Point 0 0, Point 1 0],
          samplerGrid = grid_b, prng = 0\<rparr>"
    by (subst mainLoop.simps) (simp add: pop_single spawn_run m1 del: spawnPoints.simps)
  show ?thesis
    unfolding generatePoissonPoints_def
    by (simp add: scaledPointCount_1_False effectiveMinDist_1 cell1_gridSize firstPoint_square_0
        insert_origin m0 del: spawnPoints.simps)
qed

lemma jitter_offset_seed_0:
  "point_add (point_sub (fst (generateRandomPointAround (Point 0 0) (1 / 4) 0)) (Point (1 / 2) (1 / 2)))
     (Point (1 / 2) (1 / 2)) = Point (1 / 4) 0"
  by (simp add: around_seed_0 point_add_def point_sub_def Point_def)

lemma jitterPoint_seed_0:
  assumes "IsInRectangle (Point (f32 (X + 1 / 4)) (f32 Y))"
  shows "jitterPoint X Y (1 / 4) (Point (1 / 2) (1 / 2)) 0 = Some (Point (f32 (X + 1 / 4)) (f32 Y), 0)"
proof -
  have s: "snd (generateRandomPointAround (Point 0 0) (1 / 4) 0) = 0"
    by (simp add: around_seed_0)
  have p: "point_add (Point X Y) (Point (1 / 4) 0) = Point (f32 (X + 1 / 4)) (f32 Y)"
    by (simp add: point_add_def Point_def)
  show ?thesis
    by (subst jitterPoint.simps) (simp add: split_def Let_def jitter_offset_seed_0 s p assms)
qed

lemma circle_tests:
  "\<not> IsInCircle (Point (1 / 4) 0)" "IsInCircle (Point (1 / 4) (1 / 2))"
  "\<not> IsInCircle (Point (3 / 4) 0)" "IsInCircle (Point (3 / 4) (1 / 2))"
  by (simp_all add: IsInCircle_def)

lemma jitter_run_seed_0:
  "generateJitteredGridPoints 4 0 True (1 / 4) (Point (1 / 2) (1 / 2))
     = Some ([Point (1 / 4) (1 / 2), Point (3 / 4) (1 / 2)], 0)"
proof -
  have gs: "(word_of_int (float_to_int (f64 (sqrt (real (unat (4 :: 32 word)))))) :: 32 word) = 2"
  proof -
    have "sqrt 4 = 2" using real_sqrt_abs [of 2] by simp
    then show ?thesis by (simp add: float_to_int_def)
  qed
  have cells: "List.product [0 ..< unat (2 :: 32 word)] [0 ..< unat (2 :: 32 word)]
      = [(0, 0), (0, Suc 0), (Suc 0, 0), (Suc 0, Suc 0)]"
  proof -
    have u: "unat (2 :: 32 word) = Suc (Suc 0)" by simp
    show ?thesis unfolding u by simp
  qed
  have j00: "jitterPoint 0 0 (1 / 4) (Point (1 / 2) (1 / 2)) 0 = Some (Point (1 / 4) 0, 0)"
    using jitterPoint_seed_0 [of 0 0] by (simp add: IsInRectangle_def)
  have j01: "jitterPoint 0 (1 / 2) (1 / 4) (Point (1 / 2) (1 / 2)) 0 = Some (Point (1 / 4) (1 / 2), 0)"
    using jitterPoint_seed_0 [of 0 "1 / 2"] by (simp add: IsInRectangle_def)
  have j10: "jitterPoint (1 / 2) 0 (1 / 4) (Point (1 / 2) (1 / 2)) 0 = Some (Point (3 / 4) 0, 0)"
    using jitterPoint_seed_0 [of "1 / 2" 0] by (simp add: IsInRectangle_def)
  have j11: "jitterPoint (1 / 2) (1 / 2) (1 / 4) (Point (1 / 2) (1 / 2)) 0 = Some (Point (3 / 4) (1 / 2), 0)"
    using jitterPoint_seed_0 [of "1 / 2" "1 / 2"] by (simp add: IsInRectangle_def)
  show ?thesis
    unfolding generateJitteredGridPoints_def Let_def gs cells
    by (simp add: j00 j01 j10 j11 circle_tests)
qed

lemma vogel_first_point:
  "\<exists>p. generateVogelPoints 1 False 0 (Point (1 / 2) (1 / 2)) = Inr [p] \<and> 19 / 16 \<le> px p"
proof -
  define r where "r = f32 (f32 (sqrt (1 / 2)))"
  have a: "of_int 11 * 2 powi (- 4) \<le> f32 (sqrt (1 / 2))"
    by (rule f32_ge) (use sqrt_half_bound in \<open>simp_all add: power_int_minus\<close>)
  have b: "of_int 11 * 2 powi (- 4) \<le> r"
    unfolding r_def by (rule f32_ge) (use a in \<open>simp_all add: power_int_minus\<close>)
  have c: "of_int 11 * 2 powi (- 4) \<le> f32 r"
    by (rule f32_ge) (use b in \<open>simp_all add: power_int_minus\<close>)
  have "of_int 19 * 2 powi (- 4) \<le> f32 (f32 r + 1 / 2)"
    by (rule f32_ge) (use c in \<open>simp_all add: power_int_minus\<close>)
  then have d: "19 / 16 \<le> f32 (f32 r + 1 / 2)" by (simp add: power_int_minus)
  have "generateVogelPoints 1 False 0 (Point (1 / 2) (1 / 2))
      = Inr [point_add (Point (f32 r) 0) (Point (1 / 2) (1 / 2))]"
    by (simp add: generateVogelPoints_def sampleVogelDisk_def Let_def r_def)
  with d show ?thesis by (simp add: point_add_def)
qed

lemma cell_for_two: "poissonCellSize (effectiveMinDist 2 (- 1)) = 1 / 2"
proof -
  have s: "f32 (sqrt 2) \<noteq> 0" using f32_sqrt2_bounds by auto
  have e: "effectiveMinDist 2 (- 1) = f32 (sqrt 2) / 2"
    by (simp add: effectiveMinDist_def f32_sqrt2_half)
  have "f32 (sqrt 2) / 2 / f32 (sqrt 2) = 1 / 2" using s by simp
  then have "f32 (f32 (sqrt 2) / 2 / f32 (sqrt 2)) = f32 (1 / 2)" by (simp only:)
  then show ?thesis unfolding poissonCellSize_def e by (simp only: f32_half)
qed

lemma grid_for_two: "poissonGridSize (1 / 2) = Inr 2"
  by (simp add: poissonGridSize_def)

lemma insert_edge:
  "ImageToGrid (Point 1 (1 / 2)) (1 / 2) = Inr (2, 1)"
  "Insert (Grid 2 2 (1 / 2)) (Point 1 (1 / 2)) = Inl IndexOutOfRange"
  by (simp_all add: Insert_def ImageToGrid_def Grid_def float_to_int_def castable_def)

lemma edge_in_region: "IsInRectangle (Point 1 (1 / 2))" "IsInCircle (Point 1 (1 / 2))"
  by (simp_all add: IsInRectangle_def IsInCircle_def)

text \<open>
  The loop that draws the first point need not end: seeded with 0 the generator only
  ever proposes the origin, which is outside the circle.
\<close>

lemma origin_outside_circle: "\<not> IsInCircle (Point 0 0)"
  by (simp add: IsInCircle_def)

lemma firstPoint_circle_seed_0_aux:
  assumes "firstPoint order c seed = Some r"
  shows "\<not> (c \<and> seed = 0)"
proof (rule firstPoint.raw_induct [where P = "\<lambda>order c seed r. \<not> (c \<and> seed = 0)", OF _ assms],
    goal_cases)
  case (1 f order c seed r)
  show ?case
  proof
    assume "c \<and> seed = 0"
    with 1(2) have "f order True 0 = Some r"
      by (simp add: randomFloat_0 inRegion_def origin_outside_circle split: evalOrder.splits)
    from 1(1) [OF this] show False by simp
  qed
qed

lemma firstPoint_circle_seed_0: "firstPoint order True 0 = None"
  using firstPoint_circle_seed_0_aux [of order True 0] by (cases "firstPoint order True 0") auto

lemma poisson_circle_seed_0: "generatePoissonPoints order 1 0 True 30 (- 1) = None"
  unfolding generatePoissonPoints_def
  by (simp add: scaledPointCount_def cell_for_two grid_for_two firstPoint_circle_seed_0)

lemma scaledPointCount_False_value:
  assumes "scaledPointCount numPoints False = Inr n"
  shows "int (unat n) = \<lfloor>f64 (Pi_4 * real (unat (numPoints * 2)))\<rfloor>"
proof -
  define d where "d = f64 (Pi_4 * real (unat (numPoints * 2)))"
  have "0 \<le> Pi_4" unfolding Pi_4_value by simp
  moreover have "0 \<le> real (unat (numPoints * 2))" by (rule of_nat_0_le_iff)
  ultimately have "0 \<le> Pi_4 * real (unat (numPoints * 2))" by (rule mult_nonneg_nonneg)
  then have d0: "0 \<le> d" unfolding d_def f64_def by (rule rnd_nonneg)
  then have t: "float_to_int d = \<lfloor>d\<rfloor>" by (simp add: float_to_int_def)
  have "(if \<lfloor>d\<rfloor> < 2 ^ 31 then Inr (word_of_int \<lfloor>d\<rfloor>) else Inl FloatToIntOutOfRange) = Inr n"
    using assms unfolding scaledPointCount_def Let_def d_def [symmetric] t by simp
  then have lt: "\<lfloor>d\<rfloor> < 2 ^ 31" and n: "n = word_of_int \<lfloor>d\<rfloor>"
    by (auto split: if_splits)
  have "0 \<le> \<lfloor>d\<rfloor>" using d0 by simp
  moreover have "\<lfloor>d\<rfloor> < 2 ^ 32" using lt by simp
  ultimately have "uint n = \<lfloor>d\<rfloor>"
    unfolding n by (simp add: uint_word_of_int take_bit_int_eq_self)
  then show ?thesis by (simp add: d_def)
qed

lemma poisson_inRegion:
  assumes "generatePoissonPoints order numPoints seed isCircle k minDist = Some (Inr (pts, seed'))"
  shows "\<forall>p \<in> set pts. inRegion isCircle p"
  using assms
proof (cases rule: generatePoissonPoints_cases)
  case empty
  then show ?thesis by simp
next
  case (run n w p0 seed0 g st)
  have "inRegion isCircle p0" using run(4) by (rule firstPoint_inRegion)
  then have "\<forall>q \<in> set (samplePoints \<lparr>processList = [p0], samplePoints = [p0], samplerGrid = g,
      prng = seed0\<rparr>). inRegion isCircle q" by simp
  from mainLoop_inRegion [OF run(6) this] run(7) show ?thesis by simp
qed

section \<open>The claims\<close>




text \<open>
  Claim C3, as amended. The internal target of \<open>generatePoissonPoints\<close> is the requested
  count doubled, in 32-bit unsigned arithmetic; when \<open>isCircle\<close> is set nothing else is
  done to it, and when \<open>isCircle\<close> is unset it is multiplied in double precision by the
  constant \<open>Pi_4\<close>, the double nearest to the decimal literal of the source for a quarter
  of pi, and truncated to an integer.
\<close>

theorem scaledPointCount_by_mode:
  "scaledPointCount numPoints True = Inr (numPoints * 2) \<and>
   (scaledPointCount numPoints False = Inr n \<longrightarrow>
      int (unat n) = \<lfloor>f64 (Pi_4 * real (unat (numPoints * 2)))\<rfloor>) \<and>
   Pi_4 = 7074237752028440 / 2 ^ 53"
  using scaledPointCount_False_value [of numPoints n]
  by (simp add: Pi_4_value) (simp add: scaledPointCount_def)

theorem scaledPointCount_by_mode_witness:
  "scaledPointCount 10 False = Inr 15 \<and>
   int (unat (15 :: 32 word)) = \<lfloor>f64 (Pi_4 * real (unat ((10 :: 32 word) * 2)))\<rfloor>"
  using scaledPointCount_by_mode [of 10 15] scaledPointCount_10_False by simp

text \<open>
  For a request of 10 points the target is 20 with \<open>isCircle\<close> set and 15 with
  \<open>isCircle\<close> unset: the scaling is applied in the mode opposite to the one the claim
  names.
\<close>

theorem scaledPointCount_counterexample:
  "scaledPointCount 10 True = Inr 20 \<and> scaledPointCount 10 False = Inr 15"
  by (simp add: scaledPointCount_10_False) (simp add: scaledPointCount_def)

text \<open>
  Claim C4, as amended. The number of points returned by \<open>generatePoissonPoints\<close> never
  exceeds the internal target by more than \<open>newPointsCount\<close>, the number of candidates
  tried around one point: the size is compared with the target only between two
  rounds of candidates.
\<close>

theorem generatePoissonPoints_size_bound:
  assumes "scaledPointCount numPoints isCircle = Inr n"
    and "generatePoissonPoints order numPoints seed isCircle k minDist = Some (Inr (pts, seed'))"
  shows "length pts \<le> unat n + unat k"
  using assms(2)
proof (cases rule: generatePoissonPoints_cases)
  case empty
  then show ?thesis by simp
next
  case (run n' w p0 seed0 g st)
  have nn: "n' = n" using assms(1) run(1) by simp
  have "0 < unat n" using run(2) nn by (simp add: unat_gt_0)
  then have "length (samplePoints \<lparr>processList = [p0], samplePoints = [p0], samplerGrid = g,
      prng = seed0\<rparr>) \<le> unat n + unat k" by simp
  from mainLoop_count [OF run(6) [unfolded nn] this] run(7) show ?thesis by simp
qed

theorem generatePoissonPoints_size_bound_witness:
  "scaledPointCount 1 False = Inr 1 \<and>
   generatePoissonPoints RightToLeft 1 0 False 30 (- 1) = Some (Inr ([Point 0 0, Point 1 0], 0)) \<and>
   length [Point 0 0, Point 1 0] \<le> unat (1 :: 32 word) + unat (30 :: 32 word)"
  using generatePoissonPoints_size_bound [OF scaledPointCount_1_False
      poisson_run_seed_0 [of RightToLeft]]
    scaledPointCount_1_False poisson_run_seed_0 [of RightToLeft] by simp

text \<open>
  With the generator seeded with 0, a request for one point in the square has the
  target 1 and returns two points, in whichever order the first point is drawn.
\<close>

theorem generatePoissonPoints_size_counterexample:
  "scaledPointCount 1 False = Inr 1 \<and>
   (\<forall>order. generatePoissonPoints order 1 0 False 30 (- 1)
      = Some (Inr ([Point 0 0, Point 1 0], 0))) \<and>
   \<not> length [Point 0 0, Point 1 0] \<le> unat (1 :: 32 word)"
  using scaledPointCount_1_False poisson_run_seed_0 by simp

text \<open>
  Claim C6. For every generator state, \<open>randomFloat\<close> returns a value in \<open>[-1, 1)\<close>.
  (The value is in fact a multiple of \<open>1 / 2 ^ 23\<close> in \<open>[0, 1)\<close>, see
  \<open>randomFloat_value\<close>.)
\<close>

theorem randomFloat_in_range:
  "- 1 \<le> fst (randomFloat seed) \<and> fst (randomFloat seed) < 1"
  using randomFloat_range [of seed] by simp

text \<open>
  Claim C7, as amended. \<open>generateHammersleyPoints count\<close> returns \<open>count\<close> points. The
  point of index \<open>k\<close> has as first coordinate the single-precision quotient of \<open>k\<close> and
  \<open>count\<close> and as second coordinate the 32-bit reversal of \<open>k\<close>, converted to single
  precision and divided by \<open>2 ^ 32\<close>. The second coordinate lies between 0 and 1, both
  included, within \<open>1 / 2 ^ 25\<close> of the exact radical inverse, and so is the first of
  \<open>k / count\<close> for counts up to \<open>2 ^ 24\<close>. For \<open>count = 4\<close> the coordinates are exactly
  those of the example.
\<close>

theorem hammersley_points:
  "length (generateHammersleyPoints n) = unat n \<and>
   (\<forall>k < unat n.
       px (generateHammersleyPoints n ! k) = f32 (f32 (real k) / f32 (real (unat n))) \<and>
       py (generateHammersleyPoints n ! k)
         = f32 (real (unat (word_reverse (word_of_nat k :: 32 word)))) / 2 ^ 32 \<and>
       \<bar>py (generateHammersleyPoints n ! k)
          - real (unat (word_reverse (word_of_nat k :: 32 word))) / 2 ^ 32\<bar> \<le> 1 / 2 ^ 25 \<and>
       0 \<le> py (generateHammersleyPoints n ! k) \<and> py (generateHammersleyPoints n ! k) \<le> 1 \<and>
       (unat n \<le> 2 ^ 24 \<longrightarrow>
          \<bar>px (generateHammersleyPoints n ! k) - real k / real (unat n)\<bar> \<le> 1 / 2 ^ 25)) \<and>
   map (\<lambda>p. (px p, py p)) (generateHammersleyPoints 4)
     = [(0, 0), (1 / 4, 1 / 2), (1 / 2, 1 / 4), (3 / 4, 3 / 4)]"
proof (intro conjI allI impI)
  show "length (generateHammersleyPoints n) = unat n"
    by (simp add: generateHammersleyPoints_def)
next
  fix k assume k: "k < unat n"
  note nth = hammersley_nth [OF k]
  show "px (generateHammersleyPoints n ! k) = f32 (f32 (real k) / f32 (real (unat n)))"
    unfolding nth(1) hammersley2d_def by (simp add: nth(2))
  show "py (generateHammersleyPoints n ! k)
         = f32 (real (unat (word_reverse (word_of_nat k :: 32 word)))) / 2 ^ 32"
    unfolding nth(1) hammersley2d_def by (simp add: radicalInverse_value)
  show "\<bar>py (generateHammersleyPoints n ! k)
          - real (unat (word_reverse (word_of_nat k :: 32 word))) / 2 ^ 32\<bar> \<le> 1 / 2 ^ 25"
    unfolding nth(1) hammersley2d_def using hammersley_y_error [of "of_nat k"] by simp
  show "0 \<le> py (generateHammersleyPoints n ! k)"
    unfolding nth(1) hammersley2d_def using radicalInverse_range [of "of_nat k"] by simp
  show "py (generateHammersleyPoints n ! k) \<le> 1"
    unfolding nth(1) hammersley2d_def using radicalInverse_range [of "of_nat k"] by simp
  assume n: "unat n \<le> 2 ^ 24"
  show "\<bar>px (generateHammersleyPoints n ! k) - real k / real (unat n)\<bar> \<le> 1 / 2 ^ 25"
    unfolding nth(1) hammersley2d_def using hammersley_x_error [OF k n] by (simp add: nth(2))
next
  show "map (\<lambda>p. (px p, py p)) (generateHammersleyPoints 4)
     = [(0, 0), (1 / 4, 1 / 2), (1 / 2, 1 / 4), (3 / 4, 3 / 4)]"
    by (rule hammersley_4)
qed

theorem hammersley_points_witness:
  "(1 :: nat) < unat (4 :: 32 word) \<and> unat (4 :: 32 word) \<le> 2 ^ 24 \<and>
   length (generateHammersleyPoints 4) = 4 \<and>
   py (generateHammersleyPoints 4 ! 1) = f32 (real (unat (word_reverse (1 :: 32 word)))) / 2 ^ 32 \<and>
   \<bar>px (generateHammersleyPoints 4 ! 1) - 1 / 4\<bar> \<le> 1 / 2 ^ 25"
proof -
  have a: "(1 :: nat) < unat (4 :: 32 word)" and b: "unat (4 :: 32 word) \<le> 2 ^ 24" by simp_all
  from hammersley_points [of 4] a b show ?thesis by simp
qed

text \<open>
  The second coordinate is not always below 1: at index \<open>2 ^ 25 - 1\<close> the conversion of
  the reversed integer to single precision rounds up to \<open>2 ^ 32\<close>, and the coordinate is 1.
\<close>

theorem hammersley_y_counterexample:
  "py (generateHammersleyPoints 33554432 ! 33554431) = 1 \<and>
   py (generateHammersleyPoints 33554432 ! 33554431) \<notin> {0 ..< 1}"
proof -
  have "(33554431 :: nat) < unat (33554432 :: 32 word)" by simp
  from hammersley_nth(1) [OF this]
  have "py (generateHammersleyPoints 33554432 ! 33554431) = radicalInverse_VdC 33554431"
    by (simp add: hammersley2d_def)
  then show ?thesis by (simp add: radicalInverse_rounds_to_one)
qed

text \<open>
  Claim C8. When the internal target is zero, \<open>generatePoissonPoints\<close> returns at once:
  the result is the empty sequence, no fault is raised, and the generator state is the
  one it was given, so that neither the first point nor the grid was computed.
\<close>

theorem generatePoissonPoints_zero_target:
  "scaledPointCount numPoints isCircle = Inr 0 \<Longrightarrow>
     generatePoissonPoints order numPoints seed isCircle k minDist = Some (Inr ([], seed))"
  by (simp add: generatePoissonPoints_def)

theorem generatePoissonPoints_zero_target_witness:
  "scaledPointCount 0 True = Inr 0 \<and>
   generatePoissonPoints RightToLeft 0 7133167 True 30 (- 1) = Some (Inr ([], 7133167))"
proof -
  have h: "scaledPointCount 0 True = Inr 0" by (simp add: scaledPointCount_def)
  from generatePoissonPoints_zero_target [OF h, of RightToLeft 7133167 30 "- 1"] h
  show ?thesis by simp
qed

text \<open>
  Claim C9, as amended. For every bound other than 0 and every generator state,
  \<open>randomInt\<close> returns a value below the bound; for the bound 0 it returns 0. The value
  is the integer part of the generator's float output scaled by the bound, both in single
  precision.
\<close>

theorem randomInt_in_range:
  "(maxInt \<noteq> 0 \<longrightarrow> unat (fst (randomInt maxInt seed)) < unat maxInt)
   \<and> fst (randomInt 0 seed) = 0
   \<and> int (unat (fst (randomInt maxInt seed))) = \<lfloor>f32 (fst (randomFloat seed) * f32 (real (unat maxInt)))\<rfloor>"
proof (intro conjI impI)
  assume "maxInt \<noteq> 0"
  then have "0 < unat maxInt" by (simp add: unat_gt_0)
  then show "unat (fst (randomInt maxInt seed)) < unat maxInt" by (rule randomInt_less)
next
  show "fst (randomInt 0 seed) = 0" by (rule randomInt_zero)
next
  show "int (unat (fst (randomInt maxInt seed))) = \<lfloor>f32 (fst (randomFloat seed) * f32 (real (unat maxInt)))\<rfloor>"
    by (rule randomInt_value)
qed

theorem randomInt_in_range_witness:
  "(100 :: 32 word) \<noteq> 0 \<and> unat (fst (randomInt 100 7133167)) < unat (100 :: 32 word)"
  using randomInt_in_range [of 100 7133167] by simp

text \<open>
  With the bound 0 the interval \<open>[0, bound)\<close> of the claim is empty, and the function
  returns 0; \<open>popRandom\<close> calls it so on a list of one point.
\<close>

theorem randomInt_zero_bound_counterexample:
  "fst (randomInt 0 7133167) = 0 \<and> unat (fst (randomInt 0 7133167)) \<notin> {0 ..< unat (0 :: 32 word)}"
  by (simp add: randomInt_zero)

text \<open>
  Claim C10 fails at the upper edge of the unit square. A request for one point in the
  circle has the target 2, the minimum distance \<open>f32 (sqrt 2) / 2\<close>, cells of size
  \<open>1 / 2\<close> and a grid of 2 by 2 cells. The point \<open>(1, 1 / 2)\<close> passes both region tests,
  its cell has the first index 2, and \<open>Insert\<close> writes outside the grid, where
  \<open>IsInNeighbourhood\<close> would have checked the index.
\<close>

theorem grid_insert_out_of_range:
  "scaledPointCount 1 True = Inr 2 \<and>
   poissonCellSize (effectiveMinDist 2 (- 1)) = 1 / 2 \<and>
   poissonGridSize (1 / 2) = Inr 2 \<and>
   IsInRectangle (Point 1 (1 / 2)) \<and> IsInCircle (Point 1 (1 / 2)) \<and>
   ImageToGrid (Point 1 (1 / 2)) (1 / 2) = Inr (2, 1) \<and>
   Insert (Grid 2 2 (1 / 2)) (Point 1 (1 / 2)) = Inl IndexOutOfRange"
  using cell_for_two grid_for_two insert_edge edge_in_region
  by (simp add: scaledPointCount_def)

end
